theory Spec2Isabelle
  imports Main "HOL-Library.Word"
begin

unbundle bit_operations_syntax

section \<open>Common types\<close>

type_synonym byte = "8 word"
type_synonym u32 = "32 word"

text \<open>
  Modelled from the spec: the error constants of errors.h, which is not part of the
  sources. A return code is 0 (\<open>RC_OK\<close>), -1 (\<open>RC_EOF\<close>) or one of the positive
  G10ERR constants; only their being distinct matters.
\<close>

datatype g10err =
    G10ERR_GENERAL | G10ERR_PUBKEY_ALGO | G10ERR_DIGEST_ALGO | G10ERR_BAD_SIGN
  | G10ERR_NO_PUBKEY | G10ERR_INVALID_PACKET | G10ERR_INVALID_ARMOR | G10ERR_NO_SECKEY
  | G10ERR_SIG_CLASS | G10ERR_CREATE_FILE | G10ERR_UNEXPECTED | G10ERR_OTHER nat

datatype rc = RC_OK | RC_EOF | RC_ERR g10err

text \<open>What stops a C function without a return value: a failed assert, BUG(), a null
  pointer handed to a routine that dereferences it, or g10_exit.\<close>

datatype fault = AssertFail | NullDeref | ProcessExit

section \<open>mainproc.c: the packet sequencer\<close>

text \<open>
  Modelled from the spec: the packet types of packet.h (section 3 of the
  specification, with the two further tags armor.c names), and the fields of a parsed
  packet that mainproc.c reads. The union of packet bodies is flattened.
\<close>

datatype pkttype =
    PKT_NONE | PKT_PUBKEY_ENC | PKT_SIGNATURE | PKT_SYMKEY_ENC | PKT_ONEPASS_SIG
  | PKT_SECRET_KEY | PKT_PUBLIC_KEY | PKT_SECRET_SUBKEY | PKT_COMPRESSED | PKT_ENCRYPTED
  | PKT_MARKER | PKT_PLAINTEXT | PKT_RING_TRUST | PKT_USER_ID | PKT_PUBLIC_SUBKEY
  | PKT_OLD_COMMENT | PKT_COMMENT

record PACKET =
  pkttype :: pkttype
  pubkey_algo :: int
  cipher_algo :: int
  seskeylen :: nat
  digest_algo :: int
  sig_class :: byte
  keyid0 :: u32
  keyid1 :: u32

type_synonym DEK = nat

text \<open>
  Modelled from the spec: a message digest handle (cipher.h and md.c are not part of the
  sources): the enabled algorithms and the data hashed so far, the latter as opaque
  tokens that only the external hashing routines produce.
\<close>

record MD_HANDLE =
  md_algos :: "int list"
  md_hashed :: "nat list"

definition md_open :: "int \<Rightarrow> int \<Rightarrow> MD_HANDLE" where
  "md_open algo secure = \<lparr>md_algos = (if algo \<noteq> 0 then [algo] else []), md_hashed = []\<rparr>"

definition md_enable :: "MD_HANDLE \<Rightarrow> int \<Rightarrow> MD_HANDLE" where
  "md_enable md algo = md\<lparr>md_algos := md_algos md @ [algo]\<rparr>"

definition md_copy :: "MD_HANDLE \<Rightarrow> MD_HANDLE" where
  "md_copy md = md"

text \<open>The external collaborators of section 6 of the specification, taken as parameters.\<close>

record env =
  passphrase_to_dek :: "int \<Rightarrow> PACKET option \<Rightarrow> DEK option"
  get_session_key :: "PACKET \<Rightarrow> rc \<times> DEK"
  decrypt_data :: "PACKET \<Rightarrow> DEK option \<Rightarrow> rc"
  is_ELGAMAL :: "int \<Rightarrow> bool"
  is_RSA :: "int \<Rightarrow> bool"
  PUBKEY_ALGO_DSA :: int
  DEFAULT_CIPHER_ALGO :: int
  DIGEST_ALGO_RMD160 :: int
  DIGEST_ALGO_SHA1 :: int
  DIGEST_ALGO_MD5 :: int
  check_digest_algo :: "int \<Rightarrow> rc"
  signature_check :: "PACKET \<Rightarrow> MD_HANDLE \<Rightarrow> rc"
  check_key_signature :: "PACKET list \<Rightarrow> PACKET \<Rightarrow> rc \<times> int"
  check_signatures_trust :: "PACKET \<Rightarrow> rc"
  handle_plaintext :: "PACKET \<Rightarrow> MD_HANDLE option \<Rightarrow> int \<Rightarrow> int \<Rightarrow> rc \<times> MD_HANDLE option"
  hash_datafiles :: "MD_HANDLE \<Rightarrow> int \<Rightarrow> rc \<times> MD_HANDLE"
  ask_for_detached_datafile :: "MD_HANDLE option \<Rightarrow> rc \<times> MD_HANDLE option"

record options =
  list_packets :: int
  skip_verify :: int
  batch :: int
  def_cipher_algo :: int

text \<open>
  The context of mainproc.c. A null pointer is \<open>None\<close>, the empty node list is
  \<open>[]\<close>. \<open>freed_deks\<close> is the log of the DEKs handed to m_free, in order.
\<close>

record CTX =
  mfx_md :: "MD_HANDLE option"
  sigs_only :: int
  encrypt_only :: int
  dek :: "DEK option"
  last_was_session_key :: int
  list :: "PACKET list"
  have_data :: int
  freed_deks :: "DEK list"

definition m_free_dek :: "CTX \<Rightarrow> CTX" where
  "m_free_dek c = (case dek c of None \<Rightarrow> c | Some d \<Rightarrow> c\<lparr>freed_deks := freed_deks c @ [d]\<rparr>)"

definition free_md_filter_context :: "CTX \<Rightarrow> CTX" where
  "free_md_filter_context c = c\<lparr>mfx_md := None\<rparr>"

text \<open>do_check_sig: the result is the return code and the value left in *is_selfsig.\<close>

definition do_check_sig :: "env \<Rightarrow> CTX \<Rightarrow> PACKET \<Rightarrow> fault + (rc \<times> int)" where
  "do_check_sig e c node =
    (if pkttype node \<noteq> PKT_SIGNATURE then Inl AssertFail
     else if digest_algo node = 0 then Inr (RC_ERR G10ERR_PUBKEY_ALGO, 0)
     else if check_digest_algo e (digest_algo node) \<noteq> RC_OK
       then Inr (check_digest_algo e (digest_algo node), 0)
     else if sig_class node = 0x00 \<or> sig_class node = 0x01 then
       (let md = (case mfx_md c of Some m \<Rightarrow> md_copy m | None \<Rightarrow> md_open 0 0)
        in Inr (signature_check e node md, 0))
     else if (sig_class node AND NOT 3) = 0x10
           \<or> sig_class node = 0x18
           \<or> sig_class node = 0x20
           \<or> sig_class node = 0x30 then
       (case list c of
          [] \<Rightarrow> Inl NullDeref
        | root # _ \<Rightarrow>
            if pkttype root = PKT_PUBLIC_KEY \<or> pkttype root = PKT_PUBLIC_SUBKEY
            then Inr (check_key_signature e (list c) node)
            else Inr (RC_ERR G10ERR_SIG_CLASS, 0))
     else Inr (RC_ERR G10ERR_SIG_CLASS, 0))"

definition check_sig_and_print :: "env \<Rightarrow> options \<Rightarrow> CTX \<Rightarrow> PACKET \<Rightarrow> fault + rc" where
  "check_sig_and_print e opt c node =
    (if skip_verify opt \<noteq> 0 then Inr RC_OK
     else case do_check_sig e c node of
       Inl f \<Rightarrow> Inl f
     | Inr (r, _) \<Rightarrow>
         if r = RC_OK \<or> r = RC_ERR G10ERR_BAD_SIGN then
           (let r' = (if r = RC_OK then check_signatures_trust e node else r)
            in if batch opt \<noteq> 0 \<and> r' \<noteq> RC_OK then Inl ProcessExit else Inr r')
         else Inr r)"

text \<open>
  Modelled from the spec: find_next_kbnode and add_kbnode of kbnode.c, which is not part
  of the sources. The loop \<open>for (n1 = node; (n1 = find_next_kbnode (n1, PKT_SIGNATURE));)\<close>
  visits the Signature nodes behind the root in document order. add_kbnode appends at
  the end of the list that starts at root; it walks root->next, so it must not be given
  a null root.
\<close>

definition find_signatures :: "PACKET list \<Rightarrow> PACKET list" where
  "find_signatures node = filter (\<lambda>p. pkttype p = PKT_SIGNATURE) (tl node)"

definition add_kbnode :: "PACKET list \<Rightarrow> PACKET \<Rightarrow> fault + PACKET list" where
  "add_kbnode root pkt = (if root = [] then Inl NullDeref else Inr (root @ [pkt]))"

fun check_all_sigs :: "env \<Rightarrow> options \<Rightarrow> CTX \<Rightarrow> PACKET list \<Rightarrow> fault + unit" where
  "check_all_sigs e opt c [] = Inr ()"
| "check_all_sigs e opt c (n1 # ns) =
     (case check_sig_and_print e opt c n1 of
        Inl f \<Rightarrow> Inl f
      | Inr _ \<Rightarrow> check_all_sigs e opt c ns)"

text \<open>
  proc_tree. list_node only prints (and sets the two scratch fields local_id and
  trustletter, which are not part of the model), so the key-rooted branches leave the
  context as it is.
\<close>

definition hash_detached :: "env \<Rightarrow> CTX \<Rightarrow> MD_HANDLE \<Rightarrow> int \<Rightarrow> rc \<times> CTX" where
  "hash_detached e c md textmode =
    (if sigs_only c \<noteq> 0 then
       (let (r, md') = hash_datafiles e md textmode in (r, c\<lparr>mfx_md := Some md'\<rparr>))
     else
       (let (r, mfx') = ask_for_detached_datafile e (Some md) in (r, c\<lparr>mfx_md := mfx'\<rparr>)))"

definition proc_tree :: "env \<Rightarrow> options \<Rightarrow> CTX \<Rightarrow> PACKET list \<Rightarrow> fault + CTX" where
  "proc_tree e opt c node =
    (if list_packets opt \<noteq> 0 then Inr c
     else case node of
       [] \<Rightarrow> Inl NullDeref
     | root # _ \<Rightarrow>
         if pkttype root = PKT_PUBLIC_KEY \<or> pkttype root = PKT_PUBLIC_SUBKEY then Inr c
         else if pkttype root = PKT_SECRET_KEY then Inr c
         else if pkttype root = PKT_ONEPASS_SIG then
           (if have_data c = 0 then
              (let md = fold (\<lambda>n1 m. md_enable m (digest_algo n1)) (find_signatures node)
                          (md_open 0 0);
                   (r, c') = hash_detached e (free_md_filter_context c) md 0
               in if r \<noteq> RC_OK then Inr c'
                  else case check_all_sigs e opt c' (find_signatures node) of
                         Inl f \<Rightarrow> Inl f | Inr _ \<Rightarrow> Inr c')
            else case check_all_sigs e opt c (find_signatures node) of
                   Inl f \<Rightarrow> Inl f | Inr _ \<Rightarrow> Inr c)
         else if pkttype root = PKT_SIGNATURE then
           (if have_data c = 0 then
              (let (r, c') = hash_detached e (free_md_filter_context c)
                               (md_open (digest_algo root) 0)
                               (if sig_class root = 0x01 then 1 else 0)
               in if r \<noteq> RC_OK then Inr c'
                  else case check_sig_and_print e opt c' root of
                         Inl f \<Rightarrow> Inl f | Inr _ \<Rightarrow> Inr c')
            else case check_sig_and_print e opt c root of
                   Inl f \<Rightarrow> Inl f | Inr _ \<Rightarrow> Inr c)
         else Inr c)"

definition release_list :: "env \<Rightarrow> options \<Rightarrow> CTX \<Rightarrow> fault + CTX" where
  "release_list e opt c =
    (if list c = [] then Inr c
     else case proc_tree e opt c (list c) of
       Inl f \<Rightarrow> Inl f
     | Inr c' \<Rightarrow> Inr (c'\<lparr>list := []\<rparr>))"

text \<open>The add_ functions return the context and the value for newpkt.\<close>

definition add_onepass_sig :: "env \<Rightarrow> options \<Rightarrow> CTX \<Rightarrow> PACKET \<Rightarrow> fault + (CTX \<times> int)" where
  "add_onepass_sig e opt c pkt =
    (if list c \<noteq> [] then
       (if pkttype (hd (list c)) \<noteq> PKT_ONEPASS_SIG then
          (case release_list e opt c of
             Inl f \<Rightarrow> Inl f
           | Inr c' \<Rightarrow>
              (case add_kbnode (list c') pkt of
                 Inl f \<Rightarrow> Inl f
               | Inr l \<Rightarrow> Inr (c'\<lparr>list := l\<rparr>, 1)))
        else (case add_kbnode (list c) pkt of
                Inl f \<Rightarrow> Inl f
              | Inr l \<Rightarrow> Inr (c\<lparr>list := l\<rparr>, 1)))
     else Inr (c\<lparr>list := [pkt]\<rparr>, 1))"

definition add_user_id :: "CTX \<Rightarrow> PACKET \<Rightarrow> fault + (CTX \<times> int)" where
  "add_user_id c pkt =
    (if list c = [] then Inr (c, 0)
     else case add_kbnode (list c) pkt of
       Inl f \<Rightarrow> Inl f
     | Inr l \<Rightarrow> Inr (c\<lparr>list := l\<rparr>, 1))"

definition add_subkey :: "CTX \<Rightarrow> PACKET \<Rightarrow> fault + (CTX \<times> int)" where
  "add_subkey c pkt =
    (if list c = [] then Inr (c, 0)
     else case add_kbnode (list c) pkt of
       Inl f \<Rightarrow> Inl f
     | Inr l \<Rightarrow> Inr (c\<lparr>list := l\<rparr>, 1))"

definition add_signature :: "CTX \<Rightarrow> PACKET \<Rightarrow> fault + (CTX \<times> int)" where
  "add_signature c pkt =
    (if pkttype pkt = PKT_SIGNATURE \<and> list c = [] then Inr (c\<lparr>list := [pkt]\<rparr>, 1)
     else if list c = [] then Inr (c, 0)
     else case add_kbnode (list c) pkt of
       Inl f \<Rightarrow> Inl f
     | Inr l \<Rightarrow> Inr (c\<lparr>list := l\<rparr>, 1))"

definition proc_symkey_enc :: "env \<Rightarrow> CTX \<Rightarrow> PACKET \<Rightarrow> CTX" where
  "proc_symkey_enc e c pkt =
    (if seskeylen pkt \<noteq> 0 then c
     else c\<lparr>last_was_session_key := 2,
            dek := passphrase_to_dek e (cipher_algo pkt) (Some pkt)\<rparr>)"

text \<open>proc_pubkey_enc and proc_encrypted return the context and the local \<open>result\<close>
  as it stands when the function logs it.\<close>

definition proc_pubkey_enc :: "env \<Rightarrow> CTX \<Rightarrow> PACKET \<Rightarrow> CTX \<times> rc" where
  "proc_pubkey_enc e c pkt =
    (let c1 = c\<lparr>last_was_session_key := 1\<rparr> in
     if is_ELGAMAL e (pubkey_algo pkt)
        \<or> pubkey_algo pkt = PUBKEY_ALGO_DSA e
        \<or> is_RSA e (pubkey_algo pkt) then
       (let c2 = m_free_dek c1;
            (result, d) = get_session_key e pkt;
            c3 = c2\<lparr>dek := Some d\<rparr>
        in if result \<noteq> RC_OK then ((m_free_dek c3)\<lparr>dek := None\<rparr>, result)
           else (c3, result))
     else (c1, RC_ERR G10ERR_PUBKEY_ALGO))"

definition proc_encrypted :: "env \<Rightarrow> options \<Rightarrow> CTX \<Rightarrow> PACKET \<Rightarrow> CTX \<times> rc" where
  "proc_encrypted e opt c pkt =
    (let c1 = (if dek c = None \<and> last_was_session_key c = 0 then
                 c\<lparr>dek := passphrase_to_dek e
                            (if def_cipher_algo opt \<noteq> 0 then def_cipher_algo opt
                             else DEFAULT_CIPHER_ALGO e) None\<rparr>
               else c);
         result0 = (if dek c = None \<and> last_was_session_key c = 0 then RC_OK
                    else if dek c = None then RC_ERR G10ERR_NO_SECKEY
                    else RC_OK);
         result = (if result0 = RC_OK then decrypt_data e pkt (dek c1) else result0)
     in ((m_free_dek c1)\<lparr>dek := None, last_was_session_key := 0\<rparr>, result))"

definition proc_plaintext :: "env \<Rightarrow> CTX \<Rightarrow> PACKET \<Rightarrow> CTX" where
  "proc_plaintext e c pkt =
    (let ops = filter (\<lambda>n. pkttype n = PKT_ONEPASS_SIG) (list c);
         md0 = fold (\<lambda>n m. if digest_algo n \<noteq> 0 then md_enable m (digest_algo n) else m)
                 ops (md_open 0 0);
         any = (\<exists>n \<in> set ops. digest_algo n \<noteq> 0);
         clearsig = (if \<exists>n \<in> set ops. sig_class n = 0x01 \<and> keyid0 n = 0 \<and> keyid1 n = 0
                     then 1 else 0);
         md1 = (if \<not> any then
                  md_enable (md_enable (md_enable md0 (DIGEST_ALGO_RMD160 e))
                    (DIGEST_ALGO_SHA1 e)) (DIGEST_ALGO_MD5 e)
                else md0);
         (r, mfx1) = handle_plaintext e pkt (Some md1) (sigs_only c) clearsig;
         (r2, mfx2) = (if r = RC_ERR G10ERR_CREATE_FILE \<and> sigs_only c = 0
                       then handle_plaintext e pkt mfx1 1 clearsig else (r, mfx1))
     in c\<lparr>mfx_md := mfx2, last_was_session_key := 0\<rparr>)"

text \<open>proc_compressed: handle_compressed runs the nested packets on a context of its
  own and its return code is only logged, so the call leaves no trace here.\<close>

definition proc_compressed :: "env \<Rightarrow> CTX \<Rightarrow> PACKET \<Rightarrow> CTX" where
  "proc_compressed e c pkt = c\<lparr>last_was_session_key := 0\<rparr>"

text \<open>
  The body of the loop of do_proc_packets. \<open>dispatch\<close> is the mode switch: \<open>None\<close>
  is the jump to \<open>leave\<close> with G10ERR_UNEXPECTED, otherwise the context and newpkt.
\<close>

definition dispatch :: "env \<Rightarrow> options \<Rightarrow> CTX \<Rightarrow> PACKET \<Rightarrow> fault + (CTX \<times> int) option" where
  "dispatch e opt c pkt =
    (if list_packets opt \<noteq> 0 then
       (case pkttype pkt of
          PKT_PUBKEY_ENC \<Rightarrow> Inr (Some (fst (proc_pubkey_enc e c pkt), -1))
        | PKT_ENCRYPTED \<Rightarrow> Inr (Some (fst (proc_encrypted e opt c pkt), -1))
        | PKT_COMPRESSED \<Rightarrow> Inr (Some (proc_compressed e c pkt, -1))
        | _ \<Rightarrow> Inr (Some (c, 0)))
     else if sigs_only c \<noteq> 0 then
       (case pkttype pkt of
          PKT_PUBLIC_KEY \<Rightarrow> Inr None
        | PKT_SECRET_KEY \<Rightarrow> Inr None
        | PKT_USER_ID \<Rightarrow> Inr None
        | PKT_SYMKEY_ENC \<Rightarrow> Inr None
        | PKT_PUBKEY_ENC \<Rightarrow> Inr None
        | PKT_ENCRYPTED \<Rightarrow> Inr None
        | PKT_SIGNATURE \<Rightarrow> map_sum id Some (add_signature c pkt)
        | PKT_PLAINTEXT \<Rightarrow> Inr (Some (proc_plaintext e c pkt, -1))
        | PKT_COMPRESSED \<Rightarrow> Inr (Some (proc_compressed e c pkt, -1))
        | PKT_ONEPASS_SIG \<Rightarrow> map_sum id Some (add_onepass_sig e opt c pkt)
        | _ \<Rightarrow> Inr (Some (c, 0)))
     else if encrypt_only c \<noteq> 0 then
       (case pkttype pkt of
          PKT_PUBLIC_KEY \<Rightarrow> Inr None
        | PKT_SECRET_KEY \<Rightarrow> Inr None
        | PKT_USER_ID \<Rightarrow> Inr None
        | PKT_SIGNATURE \<Rightarrow> map_sum id Some (add_signature c pkt)
        | PKT_SYMKEY_ENC \<Rightarrow> Inr (Some (proc_symkey_enc e c pkt, -1))
        | PKT_PUBKEY_ENC \<Rightarrow> Inr (Some (fst (proc_pubkey_enc e c pkt), -1))
        | PKT_ENCRYPTED \<Rightarrow> Inr (Some (fst (proc_encrypted e opt c pkt), -1))
        | PKT_PLAINTEXT \<Rightarrow> Inr (Some (proc_plaintext e c pkt, -1))
        | PKT_COMPRESSED \<Rightarrow> Inr (Some (proc_compressed e c pkt, -1))
        | PKT_ONEPASS_SIG \<Rightarrow> map_sum id Some (add_onepass_sig e opt c pkt)
        | _ \<Rightarrow> Inr (Some (c, 0)))
     else
       (case pkttype pkt of
          PKT_PUBLIC_KEY \<Rightarrow>
            (case release_list e opt c of
               Inl f \<Rightarrow> Inl f | Inr c' \<Rightarrow> Inr (Some (c'\<lparr>list := [pkt]\<rparr>, 1)))
        | PKT_SECRET_KEY \<Rightarrow>
            (case release_list e opt c of
               Inl f \<Rightarrow> Inl f | Inr c' \<Rightarrow> Inr (Some (c'\<lparr>list := [pkt]\<rparr>, 1)))
        | PKT_PUBLIC_SUBKEY \<Rightarrow> map_sum id Some (add_subkey c pkt)
        | PKT_SECRET_SUBKEY \<Rightarrow> map_sum id Some (add_subkey c pkt)
        | PKT_USER_ID \<Rightarrow> map_sum id Some (add_user_id c pkt)
        | PKT_SIGNATURE \<Rightarrow> map_sum id Some (add_signature c pkt)
        | PKT_PUBKEY_ENC \<Rightarrow> Inr (Some (fst (proc_pubkey_enc e c pkt), -1))
        | PKT_SYMKEY_ENC \<Rightarrow> Inr (Some (proc_symkey_enc e c pkt, -1))
        | PKT_ENCRYPTED \<Rightarrow> Inr (Some (fst (proc_encrypted e opt c pkt), -1))
        | PKT_PLAINTEXT \<Rightarrow> Inr (Some (proc_plaintext e c pkt, -1))
        | PKT_COMPRESSED \<Rightarrow> Inr (Some (proc_compressed e c pkt, -1))
        | PKT_ONEPASS_SIG \<Rightarrow> map_sum id Some (add_onepass_sig e opt c pkt)
        | _ \<Rightarrow> Inr (Some (c, 0))))"

definition burn_stale_dek :: "CTX \<Rightarrow> PACKET \<Rightarrow> CTX" where
  "burn_stale_dek c pkt =
    (if dek c \<noteq> None \<and> pkttype pkt \<noteq> PKT_ENCRYPTED then (m_free_dek c)\<lparr>dek := None\<rparr>
     else c)"

datatype step = Continue CTX | Break CTX | Leave rc CTX

definition proc_step :: "env \<Rightarrow> options \<Rightarrow> CTX \<Rightarrow> rc \<times> PACKET \<Rightarrow> fault + step" where
  "proc_step e opt c p =
    (let prc = fst p; pkt = snd p; c1 = burn_stale_dek c pkt in
     if prc \<noteq> RC_OK then
       (if prc = RC_ERR G10ERR_INVALID_PACKET then Inr (Break c1) else Inr (Continue c1))
     else case dispatch e opt c1 pkt of
       Inl f \<Rightarrow> Inl f
     | Inr None \<Rightarrow> Inr (Leave (RC_ERR G10ERR_UNEXPECTED) c1)
     | Inr (Some (c2, newpkt)) \<Rightarrow>
         Inr (Continue
           (if pkttype pkt \<noteq> PKT_SIGNATURE
            then c2\<lparr>have_data := (if pkttype pkt = PKT_PLAINTEXT then 1 else 0)\<rparr>
            else c2)))"

text \<open>
  The input is the sequence of results of parse_packet, each the return code and the
  packet it left in \<open>pkt\<close>; the end of the sequence, or a return code of -1, ends the
  loop. \<open>proc_loop\<close> gives the return code and the context on arrival at \<open>leave\<close>.
\<close>

fun proc_loop :: "env \<Rightarrow> options \<Rightarrow> CTX \<Rightarrow> (rc \<times> PACKET) list \<Rightarrow> fault + (rc \<times> CTX)" where
  "proc_loop e opt c [] = Inr (RC_OK, c)"
| "proc_loop e opt c (p # rest) =
     (if fst p = RC_EOF then Inr (RC_OK, c)
      else case proc_step e opt c p of
        Inl f \<Rightarrow> Inl f
      | Inr (Continue c') \<Rightarrow> proc_loop e opt c' rest
      | Inr (Break c') \<Rightarrow> Inr (RC_OK, c')
      | Inr (Leave r c') \<Rightarrow> Inr (r, c'))"

definition do_proc_packets :: "env \<Rightarrow> options \<Rightarrow> CTX \<Rightarrow> (rc \<times> PACKET) list \<Rightarrow> fault + (rc \<times> CTX)" where
  "do_proc_packets e opt c a =
    (case proc_loop e opt c a of
       Inl f \<Rightarrow> Inl f
     | Inr (r, c') \<Rightarrow>
         (case release_list e opt c' of
            Inl f \<Rightarrow> Inl f
          | Inr c'' \<Rightarrow> Inr (r, free_md_filter_context (m_free_dek c''))))"

definition ctx_clear :: CTX where
  "ctx_clear = \<lparr>mfx_md = None, sigs_only = 0, encrypt_only = 0, dek = None,
                 last_was_session_key = 0, list = [], have_data = 0, freed_deks = []\<rparr>"

definition proc_packets :: "env \<Rightarrow> options \<Rightarrow> (rc \<times> PACKET) list \<Rightarrow> fault + (rc \<times> CTX)" where
  "proc_packets e opt a = do_proc_packets e opt ctx_clear a"

definition proc_signature_packets :: "env \<Rightarrow> options \<Rightarrow> (rc \<times> PACKET) list \<Rightarrow> fault + (rc \<times> CTX)" where
  "proc_signature_packets e opt a = do_proc_packets e opt (ctx_clear\<lparr>sigs_only := 1\<rparr>) a"

definition proc_encryption_packets :: "env \<Rightarrow> options \<Rightarrow> (rc \<times> PACKET) list \<Rightarrow> fault + (rc \<times> CTX)" where
  "proc_encryption_packets e opt a = do_proc_packets e opt (ctx_clear\<lparr>encrypt_only := 1\<rparr>) a"

text \<open>
  \<open>loop_reach\<close> is the context with which the loop of do_proc_packets comes back to
  its head after the parse results \<open>pre\<close>, and \<open>None\<close> when it has stopped before.
\<close>

fun loop_reach :: "env \<Rightarrow> options \<Rightarrow> CTX \<Rightarrow> (rc \<times> PACKET) list \<Rightarrow> CTX option" where
  "loop_reach e opt c [] = Some c"
| "loop_reach e opt c (p # rest) =
     (if fst p = RC_EOF then None
      else case proc_step e opt c p of
        Inr (Continue c') \<Rightarrow> loop_reach e opt c' rest
      | _ \<Rightarrow> None)"

text \<open>A concrete environment and concrete packets, for running the model.\<close>

definition env0 :: env where
  "env0 = \<lparr>passphrase_to_dek = (\<lambda>algo s2k. Some 7),
           get_session_key = (\<lambda>enc. (RC_OK, 42)),
           decrypt_data = (\<lambda>ed d. if d = None then RC_ERR G10ERR_GENERAL else RC_OK),
           is_ELGAMAL = (\<lambda>a. a = 16 \<or> a = 20),
           is_RSA = (\<lambda>a. a = 1 \<or> a = 2 \<or> a = 3),
           PUBKEY_ALGO_DSA = 17,
           DEFAULT_CIPHER_ALGO = 4,
           DIGEST_ALGO_RMD160 = 3,
           DIGEST_ALGO_SHA1 = 2,
           DIGEST_ALGO_MD5 = 1,
           check_digest_algo = (\<lambda>a. if a \<in> {1, 2, 3} then RC_OK else RC_ERR G10ERR_DIGEST_ALGO),
           signature_check = (\<lambda>sig md. RC_OK),
           check_key_signature = (\<lambda>root node. (RC_OK, 1)),
           check_signatures_trust = (\<lambda>sig. RC_OK),
           handle_plaintext = (\<lambda>pt mfx nooutput clearsig. (RC_OK, mfx)),
           hash_datafiles = (\<lambda>md textmode. (RC_OK, md)),
           ask_for_detached_datafile = (\<lambda>mfx. (RC_OK, mfx))\<rparr>"

definition opt0 :: options where
  "opt0 = \<lparr>list_packets = 0, skip_verify = 0, batch = 0, def_cipher_algo = 0\<rparr>"

definition mk_packet :: "pkttype \<Rightarrow> PACKET" where
  "mk_packet t = \<lparr>pkttype = t, pubkey_algo = 16, cipher_algo = 4, seskeylen = 0,
                   digest_algo = 2, sig_class = 0x01, keyid0 = 0, keyid1 = 0\<rparr>"

text \<open>
  The two predicates the properties of the loop are stated with: \<open>p\<close> is a parse result
  whose processing can leave the DEK \<open>d\<close> in the context, and the shape of a list
  rooted in a OnePassSig packet.
\<close>

definition session_key_acquired :: "env \<Rightarrow> rc \<times> PACKET \<Rightarrow> DEK \<Rightarrow> bool" where
  "session_key_acquired e p d \<longleftrightarrow>
     fst p = RC_OK \<and>
     (pkttype (snd p) = PKT_PUBKEY_ENC \<and> get_session_key e (snd p) = (RC_OK, d)
      \<or> pkttype (snd p) = PKT_SYMKEY_ENC \<and> seskeylen (snd p) = 0
        \<and> passphrase_to_dek e (cipher_algo (snd p)) (Some (snd p)) = Some d)"

definition onepass_list_ok :: "CTX \<Rightarrow> bool" where
  "onepass_list_ok c \<longleftrightarrow>
     (list c \<noteq> [] \<and> pkttype (hd (list c)) = PKT_ONEPASS_SIG \<longrightarrow>
        (\<forall>p \<in> set (tl (list c)). pkttype p \<in> {PKT_ONEPASS_SIG, PKT_SIGNATURE, PKT_USER_ID,
                                               PKT_PUBLIC_SUBKEY, PKT_SECRET_SUBKEY}))"

text \<open>
  The session-key flag as the parse results determine it when the packets are not just
  listed: a PubkeyEnc packet sets it, and so does a SymkeyEnc packet that carries no
  session key; an Encrypted, Plaintext or Compressed packet clears it; every other
  packet, a SymkeyEnc packet with a session key and a failed parse leave it as it is.
\<close>

definition flag_after :: "int \<Rightarrow> rc \<times> PACKET \<Rightarrow> int" where
  "flag_after f p =
    (if fst p \<noteq> RC_OK then f
     else case pkttype (snd p) of
       PKT_PUBKEY_ENC \<Rightarrow> 1
     | PKT_SYMKEY_ENC \<Rightarrow> (if seskeylen (snd p) = 0 then 2 else f)
     | PKT_ENCRYPTED \<Rightarrow> 0
     | PKT_PLAINTEXT \<Rightarrow> 0
     | PKT_COMPRESSED \<Rightarrow> 0
     | _ \<Rightarrow> f)"

definition session_key_flag :: "(rc \<times> PACKET) list \<Rightarrow> int" where
  "session_key_flag pre = foldl flag_after 0 pre"

text \<open>An environment without the secret key: get_session_key fails.\<close>

definition env_no_seckey :: env where
  "env_no_seckey = env0\<lparr>get_session_key := (\<lambda>enc. (RC_ERR G10ERR_NO_SECKEY, 0))\<rparr>"

section \<open>armor.c: the armor filter\<close>

abbreviation LF :: byte where "LF \<equiv> 0x0A"
abbreviation CR :: byte where "CR \<equiv> 0x0D"
abbreviation TAB :: byte where "TAB \<equiv> 0x09"
abbreviation SP :: byte where "SP \<equiv> 0x20"
abbreviation DASH :: byte where "DASH \<equiv> 0x2D"
abbreviation COLON :: byte where "COLON \<equiv> 0x3A"
abbreviation COMMA :: byte where "COMMA \<equiv> 0x2C"
abbreviation PAD :: byte where "PAD \<equiv> 0x3D"

definition bytes_of :: "string \<Rightarrow> byte list" where
  "bytes_of s = map (\<lambda>c. of_nat (of_char c)) s"

text \<open>A C string held in a buffer: the bytes before the first NUL.\<close>

definition cstr :: "byte list \<Rightarrow> byte list" where
  "cstr s = takeWhile (\<lambda>c. c \<noteq> 0) s"

definition MAX_LINELEN :: nat where "MAX_LINELEN = 20000"
definition CRCINIT :: u32 where "CRCINIT = 0xB704CE"
definition CRCPOLY :: u32 where "CRCPOLY = 0x864CFB"

definition BEGIN_SIGNATURE :: int where "BEGIN_SIGNATURE = 2"
definition BEGIN_SIGNED_MSG_IDX :: int where "BEGIN_SIGNED_MSG_IDX = 3"

definition head_strings :: "byte list list" where
  "head_strings = map bytes_of
     [''BEGIN PGP MESSAGE'',
      ''BEGIN PGP PUBLIC KEY BLOCK'',
      ''BEGIN PGP SIGNATURE'',
      ''BEGIN PGP SIGNED MESSAGE'',
      ''BEGIN PGP ARMORED FILE'',
      ''BEGIN PGP PRIVATE KEY BLOCK'',
      ''BEGIN PGP SECRET KEY BLOCK'']"

definition bintoasc :: "byte list" where
  "bintoasc = bytes_of
     ''ABCDEFGHIJKLMNOPQRSTUVWXYZabcdefghijklmnopqrstuvwxyz0123456789+/''"

text \<open>
  The armor context. \<open>buffer\<close> holds the first buffer_len bytes of the line buffer, so
  buffer_len is its length; of radbuf only radbuf[0] is used when reading.
\<close>

record armor_filter_context_t =
  inp_checked :: int
  inp_bypass :: int
  in_cleartext :: int
  not_dash_escaped :: int
  hashes :: u32
  faked :: int
  truncated :: int
  buffer :: "byte list"
  buffer_pos :: nat
  radbuf0 :: byte
  idx :: int
  crc :: u32
  any_data :: int
  empty :: nat

text \<open>
  Modelled from the spec: iobuf_read_line of iobuf.c, which is not part of the sources
  (section 6: lines end with LF, at most max_length bytes are kept). It takes the bytes
  up to and including the next LF, or up to the end of the input, and gives the line,
  the new value of *max_length (0 when the line was cut) and the input left. A result
  of no bytes means end of input.
\<close>

definition iobuf_read_line :: "byte list \<Rightarrow> nat \<Rightarrow> byte list \<times> nat \<times> byte list" where
  "iobuf_read_line a maxlen =
    (let l = takeWhile (\<lambda>c. c \<noteq> LF) a;
         r = dropWhile (\<lambda>c. c \<noteq> LF) a;
         line = (if r = [] then l else l @ [LF])
     in if length line > maxlen then (take maxlen line @ [LF], 0, tl r)
        else (line, maxlen, tl r))"

subsection \<open>initialize\<close>

definition crc_table_step :: "nat \<Rightarrow> u32 list \<Rightarrow> u32 list" where
  "crc_table_step j tab =
    (let t = tab ! j in
     if t AND 0x00800000 \<noteq> 0 then
       tab[2 * j := push_bit 1 t XOR CRCPOLY, 2 * j + 1 := push_bit 1 t]
     else
       tab[2 * j := push_bit 1 t, 2 * j + 1 := push_bit 1 t XOR CRCPOLY])"

definition crc_table :: "u32 list" where
  "crc_table = fold crc_table_step [0..<128] (replicate 256 0)"

definition asctobin :: "byte list" where
  "asctobin = fold (\<lambda>i t. t[unat (bintoasc ! i) := of_nat i]) [0..<64] (replicate 256 255)"

subsection \<open>parse_hash_header\<close>

definition skip_blanks :: "byte list \<Rightarrow> byte list" where
  "skip_blanks s = dropWhile (\<lambda>c. c = SP \<or> c = TAB) s"

text \<open>strncmp (s, name, s2-s) is 0 exactly when the token from s to s2, which holds no
  NUL, is an initial part of name.\<close>

definition strncmp_eq :: "byte list \<Rightarrow> string \<Rightarrow> bool" where
  "strncmp_eq token name \<longleftrightarrow> take (length token) (bytes_of name) = token"

function parse_hash_loop :: "byte list \<Rightarrow> u32 \<Rightarrow> u32" where
  "parse_hash_loop s found =
    (let s1 = skip_blanks s in
     if s1 = [] then found
     else
       (let token = hd s1 # takeWhile (\<lambda>c. c \<noteq> SP \<and> c \<noteq> TAB \<and> c \<noteq> COMMA) (tl s1);
            s2 = skip_blanks (drop (length token) s1)
        in if \<not> (strncmp_eq token ''RIPEMD160'' \<or> strncmp_eq token ''SHA1''
                 \<or> strncmp_eq token ''MD5'' \<or> strncmp_eq token ''TIGER'') then 0
           else if s2 \<noteq> [] \<and> hd s2 \<noteq> COMMA then 0
           else parse_hash_loop (if s2 \<noteq> [] then tl s2 else s2)
                  (if strncmp_eq token ''RIPEMD160'' then found OR 1
                   else if strncmp_eq token ''SHA1'' then found OR 2
                   else if strncmp_eq token ''MD5'' then found OR 4
                   else found OR 8)))"
  by pat_completeness auto
termination
proof (relation "measure (\<lambda>(s, found). length s)", goal_cases)
  case 1
  show ?case by simp
next
  case (2 s found s1 token s2)
  have l1: "length s1 \<le> length s"
    unfolding 2(1) skip_blanks_def by (rule length_dropWhile_le)
  have "s1 \<noteq> []" using 2(2) .
  then have l2: "length (drop (length token) s1) < length s1"
    using 2(3) by (cases s1) auto
  have l3: "length s2 \<le> length (drop (length token) s1)"
    unfolding 2(4) skip_blanks_def by (rule length_dropWhile_le)
  have "length (if s2 \<noteq> [] then tl s2 else s2) \<le> length s2" by simp
  with l1 l2 l3 show ?case by simp
qed

declare parse_hash_loop.simps [simp del]

definition parse_hash_header :: "byte list \<Rightarrow> u32" where
  "parse_hash_header line =
    (if length line < 6 \<or> length line > 60 then 0
     else if take 5 line \<noteq> bytes_of ''Hash:'' then 0
     else parse_hash_loop (drop 5 line) 0)"

subsection \<open>trim_trailing_spaces\<close>

text \<open>strchr (" \t\r\n", c) is non-null for the four characters and for NUL, the
  terminator of the string searched.\<close>

definition is_trim_char :: "byte \<Rightarrow> bool" where
  "is_trim_char c \<longleftrightarrow> c = SP \<or> c = TAB \<or> c = CR \<or> c = LF \<or> c = 0"

fun trim_mark :: "byte list \<Rightarrow> nat \<Rightarrow> nat option \<Rightarrow> nat option" where
  "trim_mark [] n mark = mark"
| "trim_mark (c # cs) n mark =
     trim_mark cs (Suc n)
       (if is_trim_char c then (case mark of None \<Rightarrow> Some n | Some m \<Rightarrow> Some m) else None)"

text \<open>The function returns the new length; the model returns the line cut there.\<close>

definition trim_trailing_spaces :: "byte list \<Rightarrow> byte list" where
  "trim_trailing_spaces line =
    (case trim_mark line 0 None of Some m \<Rightarrow> take m line | None \<Rightarrow> line)"

text \<open>The bytes the buffer holds after the call, in its first len places.\<close>

definition trim_in_place :: "byte list \<Rightarrow> byte list" where
  "trim_in_place line =
    (case trim_mark line 0 None of Some m \<Rightarrow> line[m := 0] | None \<Rightarrow> line)"

subsection \<open>is_armor_header\<close>

fun strstr :: "byte list \<Rightarrow> byte list \<Rightarrow> nat option" where
  "strstr [] needle = (if needle = [] then Some 0 else None)"
| "strstr (c # cs) needle =
     (if take (length needle) (c # cs) = needle then Some 0
      else map_option Suc (strstr cs needle))"

fun find_head_string :: "byte list \<Rightarrow> byte list list \<Rightarrow> int \<Rightarrow> int" where
  "find_head_string p [] i = -1"
| "find_head_string p (s # ss) i = (if s = p then i else find_head_string p ss (i + 1))"

definition is_armor_header :: "byte list \<Rightarrow> int" where
  "is_armor_header line =
    (if length line < 15 then -1
     else if take 5 line \<noteq> bytes_of ''-----'' then -1
     else case strstr (drop 5 (cstr line)) (bytes_of ''-----'') of
       None \<Rightarrow> -1
     | Some k \<Rightarrow>
        (let p0 = drop (k + 5) (drop 5 (cstr line));
             p1 = (if p0 \<noteq> [] \<and> hd p0 = CR then tl p0 else p0);
             p2 = (if p1 \<noteq> [] \<and> hd p1 = LF then tl p1 else p1)
         in if p2 \<noteq> [] then -1
            else find_head_string (take k (drop 5 (cstr line))) head_strings 0))"

subsection \<open>parse_header_line\<close>

text \<open>The result is the return value and the context; the caller's line buffer is
  left as trim_in_place has it.\<close>

definition parse_header_line :: "armor_filter_context_t \<Rightarrow> byte list \<Rightarrow> int \<times> armor_filter_context_t" where
  "parse_header_line afx line =
    (if line \<noteq> [] \<and> (hd line = LF \<or> (hd line = CR \<and> length line > 1 \<and> line ! 1 = LF))
     then (0, afx)
     else
       (let s = cstr (trim_trailing_spaces line);
            p = dropWhile (\<lambda>c. c \<noteq> COLON) s
        in if p = [] \<or> tl p = [] then (-1, afx)
           else if in_cleartext afx \<noteq> 0 then
             (if parse_hash_header s \<noteq> 0
                then (1, afx\<lparr>hashes := hashes afx OR parse_hash_header s\<rparr>)
              else if length s > 15 \<and> take 15 s = bytes_of ''NotDashEscaped:''
                then (1, afx\<lparr>not_dash_escaped := 1\<rparr>)
              else (-1, afx))
           else (1, afx)))"

subsection \<open>fake_packet\<close>

text \<open>
  The state of the main loop of fake_packet: the context, the input left, emplines, the
  bytes written to buf from index 2 on (so \<open>len\<close> is 2 more than their number), rc and
  lastline.
\<close>

record fake_state =
  fs_afx :: armor_filter_context_t
  fs_a :: "byte list"
  fs_emplines :: nat
  fs_out :: "byte list"
  fs_rc :: rc
  fs_lastline :: bool

definition fs_len :: "fake_state \<Rightarrow> nat" where
  "fs_len s = 2 + length (fs_out s)"

definition fake_running :: "nat \<Rightarrow> fake_state \<Rightarrow> bool" where
  "fake_running sz s \<longleftrightarrow> fs_rc s = RC_OK \<and> fs_len s < sz"

text \<open>\<open>while (emplines && len < size)\<close>: one CR LF for each counted line while there is
  room.\<close>

fun emit_emplines :: "nat \<Rightarrow> nat \<Rightarrow> byte list \<Rightarrow> nat \<times> byte list" where
  "emit_emplines sz 0 out = (0, out)"
| "emit_emplines sz (Suc e) out =
     (if 2 + length out < sz then emit_emplines sz e (out @ [CR, LF])
      else (Suc e, out))"

text \<open>The copy of the pending line into buf, followed by CR LF.\<close>

definition copy_line :: "nat \<Rightarrow> fake_state \<Rightarrow> fake_state" where
  "copy_line sz s =
    (let afx = fs_afx s;
         k = min (sz - fs_len s) (length (buffer afx) - buffer_pos afx)
     in s\<lparr>fs_afx := afx\<lparr>buffer_pos := buffer_pos afx + k\<rparr>,
          fs_out := fs_out s @ take k (drop (buffer_pos afx) (buffer afx)) @ [CR, LF]\<rparr>)"

text \<open>\<open>read the next line\<close>, with the test for a dash escaped line or an armor header.\<close>

definition read_next_line :: "fake_state \<Rightarrow> fault + fake_state" where
  "read_next_line s =
    (let (line, maxlen, a') = iobuf_read_line (fs_a s) MAX_LINELEN;
         afx1 = (fs_afx s)\<lparr>buffer_pos := 0, buffer := line\<rparr>
     in if line = [] then Inr (s\<lparr>fs_afx := afx1, fs_a := a', fs_rc := RC_EOF\<rparr>)
        else
          (let afx2 = (if maxlen = 0 then afx1\<lparr>truncated := truncated afx1 + 1\<rparr> else afx1);
               p = trim_trailing_spaces line;
               n = length p;
               afx3 = afx2\<lparr>buffer := p\<rparr>
           in if n > 2 \<and> p ! 0 = DASH then
                (if p ! 1 = SP \<and> not_dash_escaped afx3 = 0 then
                   Inr (s\<lparr>fs_afx := afx3\<lparr>buffer_pos := 2\<rparr>, fs_a := a'\<rparr>)
                 else if n \<ge> 15 \<and> p ! 1 = DASH \<and> p ! 2 = DASH \<and> p ! 3 = DASH then
                   (if fs_len s < 4 then Inl AssertFail
                    else Inr (s\<lparr>fs_afx := afx3, fs_a := a', fs_lastline := True,
                                fs_out := take (length (fs_out s) - 2) (fs_out s),
                                fs_rc := RC_EOF\<rparr>))
                 else Inr (s\<lparr>fs_afx := afx3, fs_a := a'\<rparr>))
              else Inr (s\<lparr>fs_afx := afx3, fs_a := a'\<rparr>)))"

text \<open>One turn of \<open>while (!rc && len < size)\<close>.\<close>

definition fake_packet_body :: "nat \<Rightarrow> fake_state \<Rightarrow> fault + fake_state" where
  "fake_packet_body sz s =
    (if fs_emplines s \<noteq> 0 then
       (let (e, out) = emit_emplines sz (fs_emplines s) (fs_out s)
        in Inr (s\<lparr>fs_emplines := e, fs_out := out\<rparr>))
     else if faked (fs_afx s) = 1 then
       read_next_line (s\<lparr>fs_afx := (fs_afx s)\<lparr>faked := 2\<rparr>\<rparr>)
     else
       (let s1 = copy_line sz s
        in if fs_len s1 \<ge> sz then Inr s1 else read_next_line s1))"

definition fake_measure :: "nat \<Rightarrow> fake_state \<Rightarrow> nat \<times> nat \<times> nat" where
  "fake_measure sz s =
     (if fake_running sz s then 1 else 0, length (fs_a s), fs_emplines s)"

lemma emit_emplines_less:
  "2 + length out < sz \<Longrightarrow> e \<noteq> 0 \<Longrightarrow> fst (emit_emplines sz e out) < e"
proof (induction e arbitrary: out)
  case 0
  then show ?case by simp
next
  case (Suc e)
  show ?case
  proof (cases "e = 0 \<or> \<not> 2 + length (out @ [CR, LF]) < sz")
    case True
    then show ?thesis using Suc.prems by (cases e) auto
  next
    case False
    then have "fst (emit_emplines sz e (out @ [CR, LF])) < e" using Suc.IH by blast
    then show ?thesis using Suc.prems by simp
  qed
qed

lemma iobuf_read_line_rest:
  "iobuf_read_line a m = (line, m', a') \<Longrightarrow> line \<noteq> [] \<Longrightarrow> length a' < length a"
proof -
  assume r: "iobuf_read_line a m = (line, m', a')" and ne: "line \<noteq> []"
  have a': "a' = tl (dropWhile (\<lambda>c. c \<noteq> LF) a)"
    using r by (auto simp: iobuf_read_line_def Let_def split: if_splits)
  have "a \<noteq> []" using r ne by (auto simp: iobuf_read_line_def Let_def split: if_splits)
  then have "length a > 0" by simp
  moreover have "length (tl (dropWhile (\<lambda>c. c \<noteq> LF) a))
                   = length (dropWhile (\<lambda>c. c \<noteq> LF) a) - 1"
    by simp
  moreover have "length (dropWhile (\<lambda>c. c \<noteq> LF) a) \<le> length a"
    by (rule length_dropWhile_le)
  ultimately show ?thesis unfolding a' by linarith
qed

lemma read_next_line_measure:
  assumes "read_next_line s = Inr s'"
  shows "fs_rc s' \<noteq> RC_OK \<or> length (fs_a s') < length (fs_a s) \<and> fs_emplines s' = fs_emplines s"
proof -
  obtain line m a' where r: "iobuf_read_line (fs_a s) MAX_LINELEN = (line, m, a')"
    by (cases "iobuf_read_line (fs_a s) MAX_LINELEN") auto
  show ?thesis
  proof (cases "line = []")
    case True
    then show ?thesis using assms r by (auto simp: read_next_line_def)
  next
    case False
    from iobuf_read_line_rest [OF r False] have "length a' < length (fs_a s)" .
    moreover have "fs_rc s' \<noteq> RC_OK \<or> fs_a s' = a' \<and> fs_emplines s' = fs_emplines s"
      using assms r False
      by (auto simp: read_next_line_def Let_def split: if_splits)
    ultimately show ?thesis by auto
  qed
qed

lemma fake_packet_body_measure:
  assumes "fake_running sz s" "fake_packet_body sz s = Inr s'"
  shows "(fake_measure sz s', fake_measure sz s) \<in> less_than <*lex*> less_than <*lex*> less_than"
proof (cases "fake_running sz s'")
  case False
  then show ?thesis using assms(1) by (simp add: fake_measure_def)
next
  case True
  then have rc': "fs_rc s' = RC_OK" and len': "fs_len s' < sz"
    by (simp_all add: fake_running_def)
  have len: "2 + length (fs_out s) < sz"
    using assms(1) by (simp add: fake_running_def fs_len_def)
  have "length (fs_a s') < length (fs_a s)
        \<or> length (fs_a s') = length (fs_a s) \<and> fs_emplines s' < fs_emplines s"
  proof (cases "fs_emplines s \<noteq> 0")
    case True
    then show ?thesis
      using assms(2) emit_emplines_less [OF len True]
      by (auto simp: fake_packet_body_def split: prod.splits)
  next
    case False
    then show ?thesis
      using assms(2) rc' len'
      by (auto simp: fake_packet_body_def copy_line_def Let_def split: if_splits
               dest!: read_next_line_measure)
  qed
  then show ?thesis using True assms(1) by (auto simp: fake_measure_def)
qed

function fake_packet_loop :: "nat \<Rightarrow> fake_state \<Rightarrow> fault + fake_state" where
  "fake_packet_loop sz s =
    (if fake_running sz s then
       (case fake_packet_body sz s of
          Inl f \<Rightarrow> Inl f
        | Inr s' \<Rightarrow> fake_packet_loop sz s')
     else Inr s)"
  by pat_completeness auto
termination
  by (relation "inv_image (less_than <*lex*> less_than <*lex*> less_than)
                  (\<lambda>(sz, s). fake_measure sz s)")
     (auto dest: fake_packet_body_measure)

declare fake_packet_loop.simps [simp del]

text \<open>\<open>do { ... } while (!maxlen)\<close>: the next line that was not cut.\<close>

function read_whole_line :: "byte list \<Rightarrow> byte list \<times> byte list" where
  "read_whole_line a =
    (let (line, maxlen, a') = iobuf_read_line a MAX_LINELEN
     in if maxlen = 0 then read_whole_line a' else (line, a'))"
  by pat_completeness auto
termination
proof (relation "measure length", goal_cases)
  case 1
  show ?case by simp
next
  case (2 a x line y maxlen a')
  then have r: "iobuf_read_line a MAX_LINELEN = (line, 0, a')" by simp
  then have "line \<noteq> []"
    by (auto simp: iobuf_read_line_def Let_def MAX_LINELEN_def split: if_splits)
  from iobuf_read_line_rest [OF r this] show ?case by simp
qed

declare read_whole_line.simps [simp del]

lemma read_whole_line_rest:
  "read_whole_line a = (line, a') \<Longrightarrow> line \<noteq> [] \<Longrightarrow> length a' < length a"
proof (induction a rule: read_whole_line.induct)
  case (1 a)
  obtain l m r where r: "iobuf_read_line a MAX_LINELEN = (l, m, r)"
    by (cases "iobuf_read_line a MAX_LINELEN") auto
  show ?case
  proof (cases "m = 0")
    case True
    then have "l \<noteq> []" using r
      by (auto simp: iobuf_read_line_def Let_def MAX_LINELEN_def split: if_splits)
    from iobuf_read_line_rest [OF r this] have "length r < length a" .
    moreover have "read_whole_line r = (line, a')"
      using "1.prems"(1) r True by (subst (asm) read_whole_line.simps) simp
    then have "length a' < length r" using "1.IH" r True "1.prems"(2) by simp
    ultimately show ?thesis by simp
  next
    case False
    then have "line = l" "a' = r"
      using "1.prems"(1) r by (subst (asm) read_whole_line.simps, simp)+
    then show ?thesis using iobuf_read_line_rest [OF r] "1.prems"(2) by simp
  qed
qed

text \<open>
  The loop over the armor header lines of the signature, entered after the last line.
  invalid_armor ends the process.
\<close>

function fake_packet_headers :: "armor_filter_context_t \<Rightarrow> byte list \<Rightarrow> fault + (rc \<times> armor_filter_context_t \<times> byte list)" where
  "fake_packet_headers afx a =
    (let (line, a') = read_whole_line a
     in if line = [] then Inr (RC_EOF, afx\<lparr>buffer := line\<rparr>, a')
        else
          (let (i, afx') = parse_header_line afx line
           in if i \<le> 0 then
                (if i \<noteq> 0 then Inl ProcessExit
                 else Inr (RC_OK, afx'\<lparr>buffer := line\<rparr>, a'))
              else fake_packet_headers (afx'\<lparr>buffer := trim_in_place line\<rparr>) a'))"
  by pat_completeness auto
termination
proof (relation "measure (\<lambda>(afx, a). length a)", goal_cases)
  case 1
  show ?case by simp
next
  case (2 afx a x line a' xa i afx')
  then have "read_whole_line a = (line, a')" "line \<noteq> []" by simp_all
  from read_whole_line_rest [OF this] show ?case by simp
qed

declare fake_packet_headers.simps [simp del]

text \<open>
  fake_packet: the result is rc, the bytes buf[0..len-1] (so *retn is their number), the
  context and the input left; \<open>sz\<close> is the size of buf, at least 75 when armor_filter calls it.
\<close>

definition fake_packet :: "armor_filter_context_t \<Rightarrow> byte list \<Rightarrow> nat \<Rightarrow> fault + (rc \<times> byte list \<times> armor_filter_context_t \<times> byte list)" where
  "fake_packet afx a sz =
    (case fake_packet_loop (sz - 3)
            \<lparr>fs_afx = afx, fs_a = a, fs_emplines = empty afx, fs_out = [], fs_rc = RC_OK,
             fs_lastline = False\<rparr> of
       Inl f \<Rightarrow> Inl f
     | Inr s \<Rightarrow>
        (let buf0 = (of_nat (drop_bit 8 (length (fs_out s))) :: byte);
             buf1 = (of_nat (length (fs_out s)) :: byte)
         in if fs_lastline s then
              (let out = buf0 # buf1 # fs_out s @ (if buf0 \<noteq> 0 \<and> buf1 \<noteq> 0 then [0, 0] else []);
                   afx1 = (fs_afx s)\<lparr>faked := 0, in_cleartext := 0, buffer_pos := 0\<rparr>
               in case fake_packet_headers afx1 (fs_a s) of
                    Inl f \<Rightarrow> Inl f
                  | Inr (r, afx2, a') \<Rightarrow>
                      Inr (r, out,
                           afx2\<lparr>inp_checked := 1, crc := CRCINIT, idx := 0, radbuf0 := 0,
                                empty := fs_emplines s\<rparr>, a'))
            else Inr (fs_rc s, buf0 # buf1 # fs_out s,
                      (fs_afx s)\<lparr>empty := fs_emplines s\<rparr>, fs_a s)))"

subsection \<open>radix64_read\<close>

definition is_radix_space :: "byte \<Rightarrow> bool" where
  "is_radix_space c \<longleftrightarrow> c = LF \<or> c = SP \<or> c = CR \<or> c = TAB"

text \<open>
  The decoding loop \<open>for (n = 0; n < size;)\<close>. \<open>buf\<close> holds the n bytes written so far;
  the result is checkcrc, idx, val, buf and the input left.
\<close>

fun radix64_loop :: "nat \<Rightarrow> byte list \<Rightarrow> nat \<Rightarrow> byte \<Rightarrow> byte list \<Rightarrow> bool \<times> nat \<times> byte \<times> byte list \<times> byte list" where
  "radix64_loop sz [] i val buf = (False, i, val, buf, [])"
| "radix64_loop sz (c # a) i val buf =
    (if \<not> length buf < sz then (False, i, val, buf, c # a)
     else if is_radix_space c then radix64_loop sz a i val buf
     else if c = PAD then (True, i, val, (if i = 1 then buf @ [val] else buf), a)
     else if asctobin ! unat c = 255 then radix64_loop sz a i val buf
     else
       (let v = asctobin ! unat c in
        if i = 0 then radix64_loop sz a 1 (push_bit 2 v) buf
        else if i = 1 then
          radix64_loop sz a 2 (push_bit 4 v AND 0xf0) (buf @ [val OR (drop_bit 4 v AND 3)])
        else if i = 2 then
          radix64_loop sz a 3 (push_bit 6 v AND 0xc0) (buf @ [val OR (drop_bit 2 v AND 15)])
        else
          radix64_loop sz a 0 (val OR (v AND 0x3f)) (buf @ [val OR (v AND 0x3f)])))"

definition crc_step :: "u32 \<Rightarrow> byte \<Rightarrow> u32" where
  "crc_step c b = push_bit 8 c XOR crc_table ! unat ((drop_bit 16 c AND 0xff) XOR ucast b)"

text \<open>\<open>skip lf and pad characters\<close>: the input from the first other character on, which
  is the value of c, or nothing when c is -1.\<close>

definition skip_pad :: "byte list \<Rightarrow> byte list" where
  "skip_pad a = dropWhile (\<lambda>c. is_radix_space c \<or> c = PAD) a"

text \<open>
  The do-while loop over the CRC characters, entered with the character c and the input
  behind it. The result tells whether c ended up as -1, and gives idx and mycrc as they
  are behind the loop, and the input left.
\<close>

function crc_chars :: "nat \<Rightarrow> byte \<Rightarrow> byte list \<Rightarrow> byte \<Rightarrow> u32 \<Rightarrow> bool \<times> nat \<times> u32 \<times> byte list" where
  "crc_chars i c a val mycrc =
    (let v = asctobin ! unat c in
     if v = 255 then (False, i, mycrc, a)
     else
       (let val' = (if i = 0 then push_bit 2 v
                    else if i = 1 then val OR (drop_bit 4 v AND 3)
                    else if i = 2 then val OR (drop_bit 2 v AND 15)
                    else if i = 3 then val OR (v AND 0x3f)
                    else val);
            mycrc' = (if i = 1 then mycrc OR push_bit 16 (ucast val')
                      else if i = 2 then mycrc OR push_bit 8 (ucast val')
                      else if i = 3 then mycrc OR ucast val'
                      else mycrc);
            val'' = (if i = 1 then push_bit 4 v AND 0xf0
                     else if i = 2 then push_bit 6 v AND 0xc0
                     else val')
        in case a of
             [] \<Rightarrow> (True, i, mycrc', [])
           | c' # a' \<Rightarrow>
               if i + 1 < 4 then crc_chars (i + 1) c' a' val'' mycrc'
               else (False, i + 1, mycrc', a')))"
  by pat_completeness auto
termination
  by (relation "measure (\<lambda>(i, c, a, val, mycrc). 4 - i)") auto

declare crc_chars.simps [simp del]

text \<open>radix64_read: the result is rc, the bytes written to buf (so *retn is their
  number), the context and the input left.\<close>

definition radix64_read :: "armor_filter_context_t \<Rightarrow> byte list \<Rightarrow> nat \<Rightarrow> rc \<times> byte list \<times> armor_filter_context_t \<times> byte list" where
  "radix64_read afx a sz =
    (let (checkcrc, i, val, buf, a1) = radix64_loop sz a (nat (idx afx)) (radbuf0 afx) [];
         afx1 = afx\<lparr>crc := fold (\<lambda>b c. crc_step c b) buf (crc afx) AND 0x00ffffff,
                    idx := int i, radbuf0 := val\<rparr>;
         (r, afx2, a2) =
           (if checkcrc then
              (let afx2 = afx1\<lparr>any_data := 1, inp_checked := 0, faked := 0\<rparr>
               in case skip_pad a1 of
                    [] \<Rightarrow> (RC_OK, afx2, [])
                  | c # a' \<Rightarrow>
                      (let (eof, i', mycrc, a'') = crc_chars 0 c a' val 0
                       in if eof then (RC_ERR G10ERR_INVALID_ARMOR, afx2, a'')
                          else if i' \<noteq> 4 then (RC_ERR G10ERR_INVALID_ARMOR, afx2, a'')
                          else if mycrc \<noteq> crc afx2 then (RC_ERR G10ERR_INVALID_ARMOR, afx2, a'')
                          else (RC_OK, afx2, a'')))
            else (RC_OK, afx1, a1))
     in (if buf = [] then RC_EOF else r, buf, afx2, a2))"

subsection \<open>armor_filter: the packets faked on entering a clearsigned text\<close>

text \<open>
  The four digest algorithm numbers of cipher.h, which is not part of the sources, are
  parameters.
\<close>

record digest_algos =
  ALGO_RMD160 :: byte
  ALGO_SHA1 :: byte
  ALGO_MD5 :: byte
  ALGO_TIGER :: byte

text \<open>The do-while loop that writes one onepass signature packet for each bit of
  \<open>hashes\<close>; \<open>buf\<close> holds the n bytes written so far.\<close>

partial_function (option) onepass_sig_loop :: "digest_algos \<Rightarrow> u32 \<Rightarrow> byte list \<Rightarrow> byte list option" where
  "onepass_sig_loop d h buf =
    (let algo = (if h AND 1 \<noteq> 0 then ALGO_RMD160 d
                 else if h AND 2 \<noteq> 0 then ALGO_SHA1 d
                 else if h AND 4 \<noteq> 0 then ALGO_MD5 d
                 else if h AND 8 \<noteq> 0 then ALGO_TIGER d
                 else 0);
         h' = (if h AND 1 \<noteq> 0 then h AND NOT 1
               else if h AND 2 \<noteq> 0 then h AND NOT 2
               else if h AND 4 \<noteq> 0 then h AND NOT 4
               else if h AND 8 \<noteq> 0 then h AND NOT 8
               else h);
         buf' = buf @ [0x90, 13, 3, 0x01, algo, 0] @ replicate 8 0 @ [if h' = 0 then 1 else 0]
     in if h' \<noteq> 0 then onepass_sig_loop d h' buf' else Some buf')"

text \<open>The branch \<open>else if (afx->faked)\<close> of armor_filter behind check_input: the bytes
  put into buf, or \<open>None\<close> if the loop did not end.\<close>

definition armor_filter_faked :: "digest_algos \<Rightarrow> armor_filter_context_t \<Rightarrow> byte list option" where
  "armor_filter_faked d afx =
    (let h0 = hashes afx AND (1 OR 2 OR 4 OR 8);
         h = (if h0 = 0 then h0 OR 4 else h0)
     in map_option (\<lambda>buf. buf @ [0xaf, 0, 6, 0x74, 0] @ replicate 4 0)
          (onepass_sig_loop d h []))"

section \<open>qualified.c: the list of qualified certificates\<close>

text \<open>
  Modelled from the spec: the error codes of libgpg-error that qualified.c names; the
  header is not part of the sources. \<open>GPG_ERR_ERRNO\<close> stands for the code that
  gpg_error_from_errno makes of errno.
\<close>

datatype gpg_err =
    GPG_ERR_NO_ERROR | GPG_ERR_EOF | GPG_ERR_NOT_FOUND | GPG_ERR_GENERAL
  | GPG_ERR_LINE_TOO_LONG | GPG_ERR_INCOMPLETE_LINE | GPG_ERR_BAD_DATA | GPG_ERR_ERRNO nat

text \<open>
  Modelled from the spec: the character macros spacep and hexdigitp of the gpgsm
  headers, which are not part of the sources: a space or a tab, and a hexadecimal digit
  in either case.
\<close>

definition spacep :: "byte \<Rightarrow> bool" where
  "spacep c \<longleftrightarrow> c = SP \<or> c = TAB"

definition hexdigitp :: "byte \<Rightarrow> bool" where
  "hexdigitp c \<longleftrightarrow> (0x30 \<le> c \<and> c \<le> 0x39) \<or> (0x41 \<le> c \<and> c \<le> 0x46) \<or> (0x61 \<le> c \<and> c \<le> 0x66)"

text \<open>
  The two file-scope variables, and what fopen gives when the module opens the list:
  the bytes of the file, no such file (ENOENT), or another error. \<open>listfp\<close> holds the
  bytes of the open file that are still to be read, \<open>listfile\<close> all of them, for
  rewind. Read errors on the open file are not modelled.
\<close>

datatype fopen_result = Opened "byte list" | Enoent | Failed nat

record list_state =
  listname :: bool
  listfile :: "byte list"
  listfp :: "byte list option"

text \<open>fgets (line, n + 1, fp): at most n bytes, up to and with the next newline;
  \<open>None\<close> when no byte is left.\<close>

definition fgets :: "nat \<Rightarrow> byte list \<Rightarrow> (byte list \<times> byte list) option" where
  "fgets n s =
    (if s = [] then None
     else
       (let pre = takeWhile (\<lambda>c. c \<noteq> LF) s;
            line = (if length pre < n \<and> length pre < length s then pre @ [LF]
                    else take n pre)
        in Some (line, drop (length line) s)))"

text \<open>\<open>Eat until end of line\<close>.\<close>

definition eat_line :: "byte list \<Rightarrow> byte list" where
  "eat_line s = tl (dropWhile (\<lambda>c. c \<noteq> LF) s)"

text \<open>
  The do-while loop of read_list over the lines of the file: the error with which it
  returns, or the string \<open>p\<close> of the first line that is neither empty nor a comment,
  and the bytes left in the file. The line counter serves the diagnostics only and is
  left out.
\<close>

function read_list_line :: "byte list \<Rightarrow> (gpg_err + byte list) \<times> byte list" where
  "read_list_line s =
    (case fgets 254 s of
       None \<Rightarrow> (Inl GPG_ERR_EOF, s)
     | Some (line, rest) \<Rightarrow>
         if cstr line = [] \<or> last (cstr line) \<noteq> LF then
           (Inl (if cstr line \<noteq> [] then GPG_ERR_LINE_TOO_LONG else GPG_ERR_INCOMPLETE_LINE),
            eat_line rest)
         else
           (let p = dropWhile spacep (cstr line)
            in if p = [] \<or> hd p = LF \<or> hd p = 0x23 then read_list_line rest
               else (Inr p, rest)))"
  by pat_completeness auto
termination
proof (relation "measure length", goal_cases)
  case 1
  show ?case by simp
next
  case (2 s x2 line rest p)
  then have f: "fgets 254 s = Some (line, rest)" by simp
  then have "s \<noteq> []" by (auto simp: fgets_def)
  moreover have "line \<noteq> []" using 2 by (auto simp: cstr_def)
  moreover have "rest = drop (length line) s"
    using f by (auto simp: fgets_def Let_def split: if_splits)
  ultimately show ?case by simp
qed

declare read_list_line.simps [simp del]

text \<open>The loop that copies the fingerprint into key: the key and the string from p + i on.\<close>

fun read_list_key :: "byte list \<Rightarrow> byte list \<Rightarrow> byte list \<times> byte list" where
  "read_list_key [] key = (key, [])"
| "read_list_key (c # cs) key =
     (if (c = COLON \<or> hexdigitp c) \<and> length key < 40 then
        read_list_key cs (if c \<noteq> COLON then key @ [if c \<ge> 0x61 then c AND 0xdf else c] else key)
      else (key, c # cs))"

text \<open>A byte of a C string, the terminating NUL behind its end.\<close>

definition char_at :: "byte list \<Rightarrow> nat \<Rightarrow> byte" where
  "char_at s k = (if k < length s then s ! k else 0)"

text \<open>
  read_list stores the key and the country through the pointers it is given;
  \<open>key_size\<close> and \<open>country_size\<close> are the sizes of the buffers the caller passes. A
  store behind the end of a buffer is undefined behaviour: the model stops there with
  \<open>BufferOverflow\<close>.
\<close>

datatype memfault = BufferOverflow

text \<open>
  The part of read_list behind the loop: the error code, key and country. The key loop
  stores \<open>key[0]\<close> to \<open>key[j]\<close>, the terminating NUL included; a well-formed
  country stores \<open>country[0]\<close>, \<open>country[1]\<close> and \<open>country[2] = 0\<close>.
\<close>

definition read_list_entry :: "nat \<Rightarrow> nat \<Rightarrow> byte list \<Rightarrow> memfault + (gpg_err \<times> byte list \<times> byte list)" where
  "read_list_entry key_size country_size p =
    (let (key, r) = read_list_key p [] in
     if key_size \<le> length key then Inl BufferOverflow
     else if length key \<noteq> 40 \<or> \<not> (spacep (char_at r 0) \<or> char_at r 0 = LF)
       then Inr (GPG_ERR_BAD_DATA, key, [])
     else
       (let q = dropWhile spacep (tl r) in
        if 0x61 \<le> char_at q 0 \<and> char_at q 0 \<le> 0x7A
           \<and> 0x61 \<le> char_at q 1 \<and> char_at q 1 \<le> 0x7A
           \<and> (spacep (char_at q 2) \<or> char_at q 2 = LF)
          then (if country_size < 3 then Inl BufferOverflow
                else Inr (GPG_ERR_NO_ERROR, key, [char_at q 0, char_at q 1]))
        else Inr (GPG_ERR_BAD_DATA, key, [])))"

text \<open>read_list: the error code, key, country and the two variables. \<open>read_list_open\<close>
  is the function from \<open>if (!listfp)\<close> on; before it come the stores \<open>*key = 0\<close>
  and \<open>*country = 0\<close>.\<close>

definition read_list_open :: "nat \<Rightarrow> nat \<Rightarrow> list_state \<Rightarrow> memfault + (gpg_err \<times> byte list \<times> byte list \<times> list_state)" where
  "read_list_open key_size country_size st =
    (case listfp st of
       None \<Rightarrow> Inr (GPG_ERR_EOF, [], [], st)
     | Some s \<Rightarrow>
         (case read_list_line s of
            (Inl err, rest) \<Rightarrow> Inr (err, [], [], st\<lparr>listfp := Some rest\<rparr>)
          | (Inr p, rest) \<Rightarrow>
              (case read_list_entry key_size country_size p of
                 Inl f \<Rightarrow> Inl f
               | Inr (err, key, country) \<Rightarrow>
                   Inr (err, key, country, st\<lparr>listfp := Some rest\<rparr>))))"

definition read_list :: "nat \<Rightarrow> nat \<Rightarrow> fopen_result \<Rightarrow> list_state \<Rightarrow> memfault + (gpg_err \<times> byte list \<times> byte list \<times> list_state)" where
  "read_list key_size country_size fo st =
    (if key_size = 0 \<or> country_size = 0 then Inl BufferOverflow
     else if \<not> listname st then
       (case fo of
          Failed e \<Rightarrow> Inr (GPG_ERR_ERRNO e, [], [], st\<lparr>listname := True, listfp := None\<rparr>)
        | Enoent \<Rightarrow> read_list_open key_size country_size (st\<lparr>listname := True, listfp := None\<rparr>)
        | Opened content \<Rightarrow>
            read_list_open key_size country_size
              (st\<lparr>listname := True, listfile := content, listfp := Some content\<rparr>))
     else read_list_open key_size country_size st)"

lemma fgets_rest:
  "fgets n s = Some (line, rest) \<Longrightarrow> rest = drop (length line) s \<and> s \<noteq> []"
  by (auto simp: fgets_def Let_def split: if_splits)

lemma read_list_line_rest:
  "read_list_line s = (r, rest) \<Longrightarrow>
     length rest \<le> length s \<and> (\<not> isl r \<longrightarrow> length rest < length s)
     \<and> r \<noteq> Inl GPG_ERR_NO_ERROR"
proof (induction s arbitrary: r rest rule: read_list_line.induct)
  case (1 s)
  show ?case
  proof (cases "fgets 254 s")
    case None
    then show ?thesis using "1.prems" by (subst (asm) read_list_line.simps) auto
  next
    case (Some x)
    then obtain line rest0 where f: "fgets 254 s = Some (line, rest0)" by (cases x) auto
    from fgets_rest [OF f] have r0: "rest0 = drop (length line) s" and ne: "s \<noteq> []" by simp_all
    have el: "length (eat_line rest0) \<le> length rest0"
      using length_dropWhile_le [of "\<lambda>c. c \<noteq> LF" rest0] by (simp add: eat_line_def)
    show ?thesis
    proof (cases "cstr line = [] \<or> last (cstr line) \<noteq> LF")
      case True
      have "read_list_line s =
          (Inl (if cstr line \<noteq> [] then GPG_ERR_LINE_TOO_LONG else GPG_ERR_INCOMPLETE_LINE),
           eat_line rest0)"
        using f True by (subst read_list_line.simps) simp
      then have "r = Inl (if cstr line \<noteq> [] then GPG_ERR_LINE_TOO_LONG else GPG_ERR_INCOMPLETE_LINE)"
        and "rest = eat_line rest0"
        using "1.prems" by simp_all
      then show ?thesis using el r0 by auto
    next
      case False
      then have ln: "line \<noteq> []" by (auto simp: cstr_def)
      then have lt: "length rest0 < length s" using r0 ne by simp
      let ?p = "dropWhile spacep (cstr line)"
      show ?thesis
      proof (cases "?p = [] \<or> hd ?p = LF \<or> hd ?p = 0x23")
        case True
        have "read_list_line s = read_list_line rest0"
          using f False True by (subst read_list_line.simps) (simp add: Let_def)
        then have "read_list_line rest0 = (r, rest)" using "1.prems" by simp
        from "1.IH" [OF f refl False refl True this] lt
        show ?thesis by auto
      next
        case skip: False
        have "read_list_line s = (Inr ?p, rest0)"
          using f False skip by (subst read_list_line.simps) (auto simp: Let_def)
        then have "rest = rest0" "r = Inr ?p" using "1.prems" by simp_all
        then show ?thesis using lt by simp
      qed
    qed
  qed
qed

definition list_measure :: "fopen_result \<Rightarrow> list_state \<Rightarrow> nat" where
  "list_measure fo st =
    (if listname st then (case listfp st of None \<Rightarrow> 0 | Some s \<Rightarrow> Suc (length s))
     else (case fo of Opened content \<Rightarrow> Suc (Suc (length content)) | _ \<Rightarrow> 1))"

lemma read_list_open_measure:
  assumes "read_list_open ks cs st = Inr (GPG_ERR_NO_ERROR, key, country, st')"
  shows "\<exists>s rest. listfp st = Some s \<and> listfp st' = Some rest \<and> length rest < length s
           \<and> listname st' = listname st"
proof (cases "listfp st")
  case None
  then show ?thesis using assms by (simp add: read_list_open_def)
next
  case (Some s)
  obtain r rest where rl: "read_list_line s = (r, rest)" by (cases "read_list_line s") auto
  note rr = read_list_line_rest [OF rl]
  show ?thesis
  proof (cases r)
    case (Inl e)
    then have "read_list_open ks cs st = Inr (e, [], [], st\<lparr>listfp := Some rest\<rparr>)"
      using Some rl by (simp add: read_list_open_def)
    then show ?thesis using assms rr Inl by simp
  next
    case (Inr p)
    then have "length rest < length s" using rr by simp
    moreover have "listfp st' = Some rest \<and> listname st' = listname st"
      using assms Some rl Inr by (auto simp: read_list_open_def split: prod.splits sum.splits)
    ultimately show ?thesis using Some by simp
  qed
qed

lemma read_list_measure:
  assumes "read_list ks cs fo st = Inr (GPG_ERR_NO_ERROR, key, country, st')"
  shows "list_measure fo st' < list_measure fo st"
proof -
  have sz: "\<not> (ks = 0 \<or> cs = 0)" using assms by (auto simp: read_list_def split: if_splits)
  show ?thesis
  proof (cases "listname st")
    case True
    then have "read_list_open ks cs st = Inr (GPG_ERR_NO_ERROR, key, country, st')"
      using assms sz by (simp add: read_list_def)
    from read_list_open_measure [OF this] True show ?thesis
      by (auto simp: list_measure_def)
  next
    case False
    show ?thesis
    proof (cases fo)
      case (Opened content)
      then have "read_list_open ks cs
          (st\<lparr>listname := True, listfile := content, listfp := Some content\<rparr>)
          = Inr (GPG_ERR_NO_ERROR, key, country, st')"
        using assms False sz by (simp add: read_list_def)
      from read_list_open_measure [OF this] False Opened show ?thesis
        by (auto simp: list_measure_def)
    next
      case Enoent
      then show ?thesis using assms False sz by (simp add: read_list_def read_list_open_def)
    next
      case (Failed e)
      then show ?thesis using assms False sz by (simp add: read_list_def)
    qed
  qed
qed

text \<open>
  The loop of gpgsm_is_in_qualified_list; \<open>fpr\<close> is the fingerprint string. The
  buffers are the locals \<open>char key[41]\<close> and \<open>char country[2]\<close>.
\<close>

function qualified_loop :: "fopen_result \<Rightarrow> list_state \<Rightarrow> byte list \<Rightarrow> memfault + (gpg_err \<times> list_state)" where
  "qualified_loop fo st fpr =
    (case read_list 41 2 fo st of
       Inl f \<Rightarrow> Inl f
     | Inr (err, key, country, st') \<Rightarrow>
         if err \<noteq> GPG_ERR_NO_ERROR then Inr (err, st')
         else if key = fpr then Inr (err, st')
         else qualified_loop fo st' fpr)"
  by pat_completeness auto
termination
  by (relation "measure (\<lambda>(fo, st, fpr). list_measure fo st)")
     (auto dest: read_list_measure)

declare qualified_loop.simps [simp del]

text \<open>
  gpgsm_is_in_qualified_list: \<open>fpr\<close> is what gpgsm_get_fingerprint_hexstring returns
  for the certificate, \<open>None\<close> for a null pointer.
\<close>

definition gpgsm_is_in_qualified_list :: "fopen_result \<Rightarrow> list_state \<Rightarrow> byte list option \<Rightarrow> memfault + (gpg_err \<times> list_state)" where
  "gpgsm_is_in_qualified_list fo st fpr =
    (case fpr of
       None \<Rightarrow> Inr (GPG_ERR_GENERAL, st)
     | Some f \<Rightarrow>
         (let st1 = (case listfp st of None \<Rightarrow> st | Some _ \<Rightarrow> st\<lparr>listfp := Some (listfile st)\<rparr>)
          in case qualified_loop fo st1 (cstr f) of
               Inl x \<Rightarrow> Inl x
             | Inr (err, st2) \<Rightarrow> Inr (if err = GPG_ERR_EOF then GPG_ERR_NOT_FOUND else err, st2)))"

definition list_state_init :: list_state where
  "list_state_init = \<lparr>listname = False, listfile = [], listfp = None\<rparr>"

section \<open>Reference definitions for the armor filter\<close>

text \<open>
  The packets of the clearsigned mode as the specification words them: a onepass
  signature packet in the old format (tag byte 0x90, length 13, version 3, sigclass
  0x01, the digest algorithm, public key algorithm 0, key id 0, the last flag), one for
  each enabled hash in the order RIPEMD160, SHA1, MD5, TIGER, MD5 alone when none is.
\<close>

definition onepass_sig_packet :: "byte \<Rightarrow> bool \<Rightarrow> byte list" where
  "onepass_sig_packet algo is_last =
     [0x90, 13, 3, 0x01, algo, 0] @ replicate 8 0 @ [if is_last then 1 else 0]"

fun onepass_sig_packets :: "byte list \<Rightarrow> byte list" where
  "onepass_sig_packets [] = []"
| "onepass_sig_packets [algo] = onepass_sig_packet algo True"
| "onepass_sig_packets (algo # algos) = onepass_sig_packet algo False @ onepass_sig_packets algos"

definition enabled_hashes :: "digest_algos \<Rightarrow> u32 \<Rightarrow> byte list" where
  "enabled_hashes d h =
     (if h AND 15 = 0 then [ALGO_MD5 d]
      else (if h AND 1 \<noteq> 0 then [ALGO_RMD160 d] else [])
         @ (if h AND 2 \<noteq> 0 then [ALGO_SHA1 d] else [])
         @ (if h AND 4 \<noteq> 0 then [ALGO_MD5 d] else [])
         @ (if h AND 8 \<noteq> 0 then [ALGO_TIGER d] else []))"

definition std_algos :: digest_algos where
  "std_algos = \<lparr>ALGO_RMD160 = 3, ALGO_SHA1 = 2, ALGO_MD5 = 1, ALGO_TIGER = 6\<rparr>"

definition afx_clear :: armor_filter_context_t where
  "afx_clear = \<lparr>inp_checked = 0, inp_bypass = 0, in_cleartext = 0, not_dash_escaped = 0,
     hashes = 0, faked = 0, truncated = 0, buffer = [], buffer_pos = 0, radbuf0 = 0, idx = 0,
     crc = 0, any_data = 0, empty = 0\<rparr>"

text \<open>
  The canonical form of a clearsigned text as the specification words it: each line
  without its trailing white space (the characters trim_trailing_spaces looks for),
  without the two bytes of a dash escape unless NotDashEscaped was given, and the lines
  separated by CR LF. \<open>ends_text\<close> is the test by which fake_packet takes a line for
  the armor header that ends the text; \<open>text_input\<close> is the input that holds the given
  lines, each ended by LF.
\<close>

definition strip_line :: "byte list \<Rightarrow> byte list" where
  "strip_line l = rev (dropWhile is_trim_char (rev l))"

definition dash_escaped :: "int \<Rightarrow> byte list \<Rightarrow> bool" where
  "dash_escaped nde p \<longleftrightarrow> length p > 2 \<and> take 2 p = [DASH, SP] \<and> nde = 0"

definition canonical_line :: "int \<Rightarrow> byte list \<Rightarrow> byte list" where
  "canonical_line nde l =
     (if dash_escaped nde (strip_line l) then drop 2 (strip_line l) else strip_line l)"

definition ends_text :: "byte list \<Rightarrow> bool" where
  "ends_text p \<longleftrightarrow> length p \<ge> 15 \<and> take 4 p = [DASH, DASH, DASH, DASH]"

fun join_crlf :: "byte list list \<Rightarrow> byte list" where
  "join_crlf [] = []"
| "join_crlf [c] = c"
| "join_crlf (c # cs) = c @ [CR, LF] @ join_crlf cs"

definition text_input :: "byte list list \<Rightarrow> byte list" where
  "text_input ls = concat (map (\<lambda>l. l @ [LF]) ls)"

definition canonical_text :: "int \<Rightarrow> byte list list \<Rightarrow> byte list" where
  "canonical_text nde ls = join_crlf (map (canonical_line nde) ls)"

definition fake_chunk :: "byte list \<Rightarrow> byte list" where
  "fake_chunk body =
     (let buf0 = (of_nat (length body div 256) :: byte); buf1 = (of_nat (length body) :: byte)
      in buf0 # buf1 # body @ (if buf0 \<noteq> 0 \<and> buf1 \<noteq> 0 then [0, 0] else []))"

definition clearsig_afx :: armor_filter_context_t where
  "clearsig_afx = afx_clear\<lparr>in_cleartext := 1, faked := 1\<rparr>"

definition sample_text :: "byte list list" where
  "sample_text = [bytes_of ''- -dash  '', [], bytes_of ''end'']"

definition begin_signature :: "byte list" where
  "begin_signature = bytes_of ''-----BEGIN PGP SIGNATURE-----''"

definition fake_text_state :: "armor_filter_context_t \<Rightarrow> byte list \<Rightarrow> nat \<Rightarrow> byte list \<Rightarrow> byte list \<Rightarrow> fake_state" where
  "fake_text_state A p k acc a =
     \<lparr>fs_afx = A\<lparr>buffer := p, buffer_pos := k\<rparr>, fs_a = a, fs_emplines = 0, fs_out = acc,
      fs_rc = RC_OK, fs_lastline = False\<rparr>"

text \<open>
  For the CRC check of radix64_read: a character of the radix-64 alphabet, the 24-bit
  value that four of them give (the three bytes they decode to, the first one highest),
  the running CRC behind the bytes of a call, and the outcome of the do-while loop that
  makes the check fail before any comparison (c is -1, or idx is not 4).
\<close>

definition radix64_char :: "byte \<Rightarrow> bool" where
  "radix64_char c \<longleftrightarrow> asctobin ! unat c \<noteq> 255"

definition crc24_of_chars :: "byte \<Rightarrow> byte \<Rightarrow> byte \<Rightarrow> byte \<Rightarrow> u32" where
  "crc24_of_chars c1 c2 c3 c4 =
     (let v1 = asctobin ! unat c1; v2 = asctobin ! unat c2;
          v3 = asctobin ! unat c3; v4 = asctobin ! unat c4
      in push_bit 16 (ucast (push_bit 2 v1 OR (drop_bit 4 v2 AND 3)))
         OR push_bit 8 (ucast ((push_bit 4 v2 AND 0xf0) OR (drop_bit 2 v3 AND 15)))
         OR ucast ((push_bit 6 v3 AND 0xc0) OR (v4 AND 0x3f)))"

definition running_crc :: "armor_filter_context_t \<Rightarrow> byte list \<Rightarrow> u32" where
  "running_crc afx buf = fold (\<lambda>b c. crc_step c b) buf (crc afx) AND 0x00ffffff"

definition radix_afx :: armor_filter_context_t where
  "radix_afx = afx_clear\<lparr>inp_checked := 1, crc := CRCINIT\<rparr>"

definition crc_bad :: "bool \<times> nat \<times> u32 \<times> byte list \<Rightarrow> bool" where
  "crc_bad r \<longleftrightarrow> fst r \<or> fst (snd r) \<noteq> 4"

section \<open>Reference definitions for the list of qualified certificates\<close>

text \<open>
  The list as a text file: lines ended by a newline, and what follows the last newline.
\<close>

definition text_file :: "byte list list \<Rightarrow> byte list \<Rightarrow> byte list" where
  "text_file ls tail = concat (map (\<lambda>l. l @ [LF]) ls) @ tail"

definition text_line :: "byte list \<Rightarrow> bool" where
  "text_line l \<longleftrightarrow> LF \<notin> set l \<and> 0 \<notin> set l"

text \<open>
  The fingerprint of an entry: the colons skipped, the lowercase hexadecimal digits in
  upper case.
\<close>

definition lowerp :: "byte \<Rightarrow> bool" where
  "lowerp c \<longleftrightarrow> 0x61 \<le> c \<and> c \<le> 0x7A"

definition upcase :: "byte \<Rightarrow> byte" where
  "upcase c = (if lowerp c then c - 0x20 else c)"

definition fpr_char :: "byte \<Rightarrow> bool" where
  "fpr_char c \<longleftrightarrow> c = COLON \<or> hexdigitp c"

definition fingerprint_of :: "byte list \<Rightarrow> byte list" where
  "fingerprint_of fp = map upcase (filter (\<lambda>c. c \<noteq> COLON) fp)"

text \<open>The country code of an entry: two lowercase letters, then a blank or the end of
  the line.\<close>

fun country_code :: "byte list \<Rightarrow> bool" where
  "country_code (c1 # c2 # t) \<longleftrightarrow> lowerp c1 \<and> lowerp c2 \<and> (t = [] \<or> spacep (hd t))"
| "country_code _ \<longleftrightarrow> False"

text \<open>
  What a line of the list (given without its newline) is: too long for the line buffer;
  empty, blank or a comment; a well-formed entry with its fingerprint (after optional
  blanks 40 hexadecimal digits, colons allowed between them, then a blank and the
  country code); or malformed.
\<close>

datatype line_kind = Overlong | Blank | Entry "byte list" | Malformed

definition line_kind :: "byte list \<Rightarrow> line_kind" where
  "line_kind l =
    (if 254 \<le> length l then Overlong
     else
       (let p = dropWhile spacep l in
        if p = [] \<or> hd p = 0x23 then Blank
        else
          (let fp = takeWhile fpr_char p;
               r = drop (length fp) p
           in if length (fingerprint_of fp) = 40 \<and> last fp \<noteq> COLON
                 \<and> r \<noteq> [] \<and> spacep (hd r) \<and> country_code (dropWhile spacep r)
              then Entry (fingerprint_of fp)
              else Malformed)))"

text \<open>
  The lookup as the code performs it: it reads the lines in their order and stops at
  the first line that is too long or malformed, with the error code; at the first
  well-formed entry, whose country code it stores behind the end of the two-byte buffer;
  and at the end of the file. Bytes behind the last newline are a line that was not
  ended.
\<close>

fun lookup_lines :: "line_kind list \<Rightarrow> byte list \<Rightarrow> memfault + gpg_err" where
  "lookup_lines [] tail = Inr (if tail = [] then GPG_ERR_NOT_FOUND else GPG_ERR_LINE_TOO_LONG)"
| "lookup_lines (Overlong # ks) tail = Inr GPG_ERR_LINE_TOO_LONG"
| "lookup_lines (Blank # ks) tail = lookup_lines ks tail"
| "lookup_lines (Malformed # ks) tail = Inr GPG_ERR_BAD_DATA"
| "lookup_lines (Entry key # ks) tail = Inl BufferOverflow"

text \<open>The module's variables before the first call, and once the list is open.\<close>

definition list_opened :: "byte list \<Rightarrow> list_state \<Rightarrow> bool" where
  "list_opened file st \<longleftrightarrow> listname st \<and> listfile st = file \<and> listfp st \<noteq> None"

text \<open>A list for the examples: a comment, an empty line and one entry.\<close>

definition sample_fpr :: "byte list" where
  "sample_fpr = bytes_of ''0123456789ABCDEF0123456789ABCDEF01234567''"

definition sample_entry :: "byte list" where
  "sample_entry = bytes_of ''  01:23:45:67:89:ab:cd:ef:01:23:45:67:89:AB:CD:EF:01:23:45:67 de''"

definition sample_list :: "byte list list" where
  "sample_list = [bytes_of ''# qualified certificates'', [], sample_entry]"

section \<open>Properties of the sequencer\<close>

subsection \<open>proc_encrypted\<close>

lemma proc_encrypted_result:
  "(dek c = None \<and> last_was_session_key c = 0 \<longrightarrow>
      snd (proc_encrypted e opt c pkt) =
        decrypt_data e pkt (passphrase_to_dek e
          (if def_cipher_algo opt \<noteq> 0 then def_cipher_algo opt else DEFAULT_CIPHER_ALGO e) None)
      \<and> freed_deks (fst (proc_encrypted e opt c pkt)) =
          freed_deks c @ (case passphrase_to_dek e
             (if def_cipher_algo opt \<noteq> 0 then def_cipher_algo opt else DEFAULT_CIPHER_ALGO e) None
             of None \<Rightarrow> [] | Some d \<Rightarrow> [d]))
   \<and> (dek c = None \<and> last_was_session_key c \<noteq> 0 \<longrightarrow>
      snd (proc_encrypted e opt c pkt) = RC_ERR G10ERR_NO_SECKEY
      \<and> freed_deks (fst (proc_encrypted e opt c pkt)) = freed_deks c)
   \<and> (\<forall>d. dek c = Some d \<longrightarrow>
      snd (proc_encrypted e opt c pkt) = decrypt_data e pkt (Some d)
      \<and> freed_deks (fst (proc_encrypted e opt c pkt)) = freed_deks c @ [d])
   \<and> dek (fst (proc_encrypted e opt c pkt)) = None
   \<and> last_was_session_key (fst (proc_encrypted e opt c pkt)) = 0"
  by (auto simp: proc_encrypted_def m_free_dek_def Let_def split: option.splits)

subsection \<open>do_check_sig\<close>

text \<open>
  C5, at the input where the code departs from it. A Signature of class 0x14 with a
  supported digest, in a list rooted in a PublicKey: the test
  \<open>(sig_class & ~3) == 0x10\<close> lets only 0x10..0x13 through, so the code does not reach
  check_key_signature and returns G10ERR_SIG_CLASS, although its own comment names the
  classes 0x10..0x17.
\<close>

theorem do_check_sig_class_0x14:
  "do_check_sig env0 (ctx_clear\<lparr>list := [mk_packet PKT_PUBLIC_KEY]\<rparr>)
     ((mk_packet PKT_SIGNATURE)\<lparr>sig_class := 0x14\<rparr>) = Inr (RC_ERR G10ERR_SIG_CLASS, 0)"
  by (simp add: do_check_sig_def ctx_clear_def env0_def mk_packet_def)

lemma hash_detached_frame:
  "hash_detached e c md t = (r, c') \<Longrightarrow> c' = c\<lparr>mfx_md := mfx_md c'\<rparr>"
  by (auto simp: hash_detached_def Let_def split: if_splits prod.splits)

lemma proc_tree_frame:
  "proc_tree e opt c node = Inr c' \<Longrightarrow> c' = c\<lparr>mfx_md := mfx_md c'\<rparr>"
  by (auto simp: proc_tree_def Let_def free_md_filter_context_def
           split: if_splits list.splits prod.splits sum.splits
           dest!: hash_detached_frame)

lemma release_list_frame:
  "release_list e opt c = Inr c' \<Longrightarrow> c' = c\<lparr>mfx_md := mfx_md c', list := []\<rparr>"
  by (auto simp: release_list_def split: if_splits sum.splits dest!: proc_tree_frame)

lemma release_list_fields:
  assumes "release_list e opt c = Inr c'"
  shows "dek c' = dek c" "freed_deks c' = freed_deks c" "sigs_only c' = sigs_only c"
    "encrypt_only c' = encrypt_only c" "list c' = []"
    "last_was_session_key c' = last_was_session_key c" "have_data c' = have_data c"
  using release_list_frame [OF assms]
  by (metis CTX.select_convs CTX.surjective CTX.update_convs)+

lemma add_onepass_sig_fields:
  assumes "add_onepass_sig e opt c pkt = Inr (c', n)"
  shows "dek c' = dek c" "freed_deks c' = freed_deks c" "sigs_only c' = sigs_only c"
    "encrypt_only c' = encrypt_only c" 
    "list c' = list c @ [pkt]"
    "list c \<noteq> [] \<longrightarrow> pkttype (hd (list c)) = PKT_ONEPASS_SIG"
  using assms
  by (auto simp: add_onepass_sig_def add_kbnode_def release_list_fields
           split: if_splits sum.splits)

lemma add_user_id_fields:
  assumes "add_user_id c pkt = Inr (c', n)"
  shows "dek c' = dek c" "freed_deks c' = freed_deks c" "sigs_only c' = sigs_only c"
    "encrypt_only c' = encrypt_only c" 
    "list c' = (if list c = [] then [] else list c @ [pkt])"
  using assms
  by (auto simp: add_user_id_def add_kbnode_def split: if_splits sum.splits)

lemma add_subkey_fields:
  assumes "add_subkey c pkt = Inr (c', n)"
  shows "dek c' = dek c" "freed_deks c' = freed_deks c" "sigs_only c' = sigs_only c"
    "encrypt_only c' = encrypt_only c" 
    "list c' = (if list c = [] then [] else list c @ [pkt])"
  using assms
  by (auto simp: add_subkey_def add_kbnode_def split: if_splits sum.splits)

lemma add_signature_fields:
  assumes "add_signature c pkt = Inr (c', n)"
  shows "dek c' = dek c" "freed_deks c' = freed_deks c" "sigs_only c' = sigs_only c"
    "encrypt_only c' = encrypt_only c" 
    "list c' = (if list c = [] \<and> pkttype pkt \<noteq> PKT_SIGNATURE then [] else list c @ [pkt])"
  using assms
  by (auto simp: add_signature_def add_kbnode_def split: if_splits sum.splits)

lemma proc_plaintext_fields:
  "dek (proc_plaintext e c pkt) = dek c" "freed_deks (proc_plaintext e c pkt) = freed_deks c"
  "sigs_only (proc_plaintext e c pkt) = sigs_only c"
  "encrypt_only (proc_plaintext e c pkt) = encrypt_only c" 
  "list (proc_plaintext e c pkt) = list c"
  unfolding proc_plaintext_def Let_def case_prod_beta by simp_all

lemma proc_compressed_fields:
  "dek (proc_compressed e c pkt) = dek c" "freed_deks (proc_compressed e c pkt) = freed_deks c"
  "sigs_only (proc_compressed e c pkt) = sigs_only c"
  "encrypt_only (proc_compressed e c pkt) = encrypt_only c" 
  "list (proc_compressed e c pkt) = list c"
  by (simp_all add: proc_compressed_def)

lemma proc_symkey_enc_fields:
  "freed_deks (proc_symkey_enc e c pkt) = freed_deks c"
  "sigs_only (proc_symkey_enc e c pkt) = sigs_only c"
  "encrypt_only (proc_symkey_enc e c pkt) = encrypt_only c" 
  "list (proc_symkey_enc e c pkt) = list c"
  by (simp_all add: proc_symkey_enc_def)

lemma proc_pubkey_enc_fields:
  "sigs_only (fst (proc_pubkey_enc e c pkt)) = sigs_only c"
  "encrypt_only (fst (proc_pubkey_enc e c pkt)) = encrypt_only c" 
  "list (fst (proc_pubkey_enc e c pkt)) = list c"
  by (simp_all add: proc_pubkey_enc_def Let_def m_free_dek_def split: prod.splits option.splits)

lemma proc_encrypted_fields:
  "sigs_only (fst (proc_encrypted e opt c pkt)) = sigs_only c"
  "encrypt_only (fst (proc_encrypted e opt c pkt)) = encrypt_only c" 
  "list (fst (proc_encrypted e opt c pkt)) = list c"
  "dek (fst (proc_encrypted e opt c pkt)) = None"
  by (simp_all add: proc_encrypted_def Let_def m_free_dek_def split: prod.splits option.splits)

lemmas sub_fields = release_list_fields add_onepass_sig_fields add_user_id_fields
  add_subkey_fields add_signature_fields proc_plaintext_fields proc_compressed_fields
  proc_symkey_enc_fields proc_pubkey_enc_fields proc_encrypted_fields



lemma proc_pubkey_enc_dek:
  "dek c = None \<Longrightarrow> dek (fst (proc_pubkey_enc e c pkt)) = Some d \<Longrightarrow>
     get_session_key e pkt = (RC_OK, d)"
  by (auto simp: proc_pubkey_enc_def Let_def m_free_dek_def split: prod.splits if_splits)

lemma proc_symkey_enc_dek:
  "dek c = None \<Longrightarrow> dek (proc_symkey_enc e c pkt) = Some d \<Longrightarrow>
     seskeylen pkt = 0 \<and> passphrase_to_dek e (cipher_algo pkt) (Some pkt) = Some d"
  by (auto simp: proc_symkey_enc_def split: if_splits)


lemma dispatch_flags:
  assumes "dispatch e opt c pkt = Inr (Some (c', n))"
  shows "sigs_only c' = sigs_only c \<and> encrypt_only c' = encrypt_only c"
  using assms
  by (cases "pkttype pkt")
     (auto simp: dispatch_def sub_fields map_sum_def split: if_splits sum.splits)

lemma dispatch_dek:
  assumes "dispatch e opt c pkt = Inr (Some (c', n))" "dek c = None" "dek c' = Some d"
  shows "session_key_acquired e (RC_OK, pkt) d"
  using assms
  by (cases "pkttype pkt")
     (auto simp: dispatch_def sub_fields map_sum_def session_key_acquired_def
           split: if_splits sum.splits dest: proc_pubkey_enc_dek proc_symkey_enc_dek)

lemma dispatch_encrypted:
  assumes "dispatch e opt c pkt = Inr (Some (c', n))" "pkttype pkt = PKT_ENCRYPTED"
  shows "c' = fst (proc_encrypted e opt c pkt)"
  using assms by (auto simp: dispatch_def split: if_splits)

lemma dispatch_list:
  assumes "dispatch e opt c pkt = Inr (Some (c', n))"
  shows "list c' = list c \<or> list c' = [pkt]
     \<or> list c' = list c @ [pkt]
        \<and> pkttype pkt \<in> {PKT_ONEPASS_SIG, PKT_SIGNATURE, PKT_USER_ID, PKT_PUBLIC_SUBKEY,
                          PKT_SECRET_SUBKEY}"
  using assms
  by (cases "pkttype pkt")
     (auto simp: dispatch_def sub_fields map_sum_def split: if_splits sum.splits)


lemma burn_stale_dek_fields:
  "sigs_only (burn_stale_dek c pkt) = sigs_only c"
  "encrypt_only (burn_stale_dek c pkt) = encrypt_only c"
  "list (burn_stale_dek c pkt) = list c"
  "pkttype pkt \<noteq> PKT_ENCRYPTED \<Longrightarrow> dek (burn_stale_dek c pkt) = None"
  "pkttype pkt = PKT_ENCRYPTED \<Longrightarrow> burn_stale_dek c pkt = c"
  "freed_deks (burn_stale_dek c pkt) =
     freed_deks c @ (if pkttype pkt \<noteq> PKT_ENCRYPTED then (case dek c of None \<Rightarrow> [] | Some d \<Rightarrow> [d])
                     else [])"
  by (auto simp: burn_stale_dek_def m_free_dek_def split: option.splits)

lemma proc_step_Continue:
  assumes "proc_step e opt c p = Inr (Continue c')"
  obtains (err) "fst p \<noteq> RC_OK" "c' = burn_stale_dek c (snd p)"
    | (ok) c2 n where "fst p = RC_OK"
        "dispatch e opt (burn_stale_dek c (snd p)) (snd p) = Inr (Some (c2, n))"
        "list c' = list c2" "dek c' = dek c2" "freed_deks c' = freed_deks c2"
        "sigs_only c' = sigs_only c2" "encrypt_only c' = encrypt_only c2"
  using assms
  by (auto simp: proc_step_def Let_def split: if_splits sum.splits option.splits)

lemma proc_step_flags:
  assumes "proc_step e opt c p = Inr (Continue c')"
  shows "sigs_only c' = sigs_only c \<and> encrypt_only c' = encrypt_only c"
  using assms
  by (cases rule: proc_step_Continue) (auto simp: burn_stale_dek_fields dest!: dispatch_flags)

lemma loop_reach_flags:
  "loop_reach e opt c pre = Some c' \<Longrightarrow>
     sigs_only c' = sigs_only c \<and> encrypt_only c' = encrypt_only c"
proof (induction pre arbitrary: c)
  case Nil
  then show ?case by simp
next
  case (Cons p pre)
  then show ?case
    by (auto split: if_splits sum.splits step.splits dest!: proc_step_flags)
qed

lemma loop_reach_proc_loop:
  "loop_reach e opt c pre = Some c' \<Longrightarrow> proc_loop e opt c (pre @ rest) = proc_loop e opt c' rest"
  by (induction pre arbitrary: c) (auto split: if_splits sum.splits step.splits)

lemma proc_step_unexpected:
  assumes "list_packets opt = 0" "fst p = RC_OK"
    and "sigs_only c \<noteq> 0 \<and> pkttype (snd p) \<in> {PKT_PUBLIC_KEY, PKT_SECRET_KEY, PKT_USER_ID,
            PKT_SYMKEY_ENC, PKT_PUBKEY_ENC, PKT_ENCRYPTED}
         \<or> sigs_only c = 0 \<and> encrypt_only c \<noteq> 0
           \<and> pkttype (snd p) \<in> {PKT_PUBLIC_KEY, PKT_SECRET_KEY, PKT_USER_ID}"
  shows "proc_step e opt c p = Inr (Leave (RC_ERR G10ERR_UNEXPECTED) (burn_stale_dek c (snd p)))"
  using assms
  by (auto simp: proc_step_def Let_def dispatch_def burn_stale_dek_fields)

lemma proc_step_subkey:
  assumes "list_packets opt = 0" "fst p = RC_OK"
    and "sigs_only c \<noteq> 0 \<or> encrypt_only c \<noteq> 0"
    and "pkttype (snd p) \<in> {PKT_PUBLIC_SUBKEY, PKT_SECRET_SUBKEY}"
  shows "proc_step e opt c p = Inr (Continue ((burn_stale_dek c (snd p))\<lparr>have_data := 0\<rparr>))"
  using assms
  by (auto simp: proc_step_def Let_def dispatch_def burn_stale_dek_fields)

lemma loop_reach_append:
  "loop_reach e opt c (pre @ post) =
     (case loop_reach e opt c pre of None \<Rightarrow> None | Some c' \<Rightarrow> loop_reach e opt c' post)"
  by (induction pre arbitrary: c) (auto split: if_splits sum.splits step.splits)

subsection \<open>The mode switches of do_proc_packets\<close>

text \<open>
  C4, as the code has it. With opt.list_packets off, when the loop comes to a packet
  that parsed without error: in sigs-only mode a PublicKey, SecretKey, UserId,
  SymkeyEnc, PubkeyEnc or Encrypted packet, and in encrypt-only mode a PublicKey,
  SecretKey or UserId packet, sends the loop to \<open>leave\<close> with G10ERR_UNEXPECTED, which
  is then what do_proc_packets returns; a PublicSubkey or SecretSubkey packet falls into
  the default branch of either switch, is dropped, and the loop goes on.
\<close>

theorem mode_rejects_unexpected:
  assumes "list_packets opt = 0" and "loop_reach e opt c pre = Some c'" and "fst p = RC_OK"
  shows "(sigs_only c \<noteq> 0 \<and> pkttype (snd p) \<in> {PKT_PUBLIC_KEY, PKT_SECRET_KEY, PKT_USER_ID,
              PKT_SYMKEY_ENC, PKT_PUBKEY_ENC, PKT_ENCRYPTED}
           \<or> sigs_only c = 0 \<and> encrypt_only c \<noteq> 0
             \<and> pkttype (snd p) \<in> {PKT_PUBLIC_KEY, PKT_SECRET_KEY, PKT_USER_ID}
          \<longrightarrow> proc_loop e opt c (pre @ p # rest)
                = Inr (RC_ERR G10ERR_UNEXPECTED, burn_stale_dek c' (snd p))
              \<and> (\<forall>r c''. do_proc_packets e opt c (pre @ p # rest) = Inr (r, c'')
                    \<longrightarrow> r = RC_ERR G10ERR_UNEXPECTED))
       \<and> ((sigs_only c \<noteq> 0 \<or> encrypt_only c \<noteq> 0)
             \<and> pkttype (snd p) \<in> {PKT_PUBLIC_SUBKEY, PKT_SECRET_SUBKEY}
          \<longrightarrow> loop_reach e opt c (pre @ [p])
                = Some ((burn_stale_dek c' (snd p))\<lparr>have_data := 0\<rparr>))"
proof (intro conjI impI)
  have fl: "sigs_only c' = sigs_only c" "encrypt_only c' = encrypt_only c"
    using loop_reach_flags [OF assms(2)] by simp_all
  {
    assume rej: "sigs_only c \<noteq> 0 \<and> pkttype (snd p) \<in> {PKT_PUBLIC_KEY, PKT_SECRET_KEY,
              PKT_USER_ID, PKT_SYMKEY_ENC, PKT_PUBKEY_ENC, PKT_ENCRYPTED}
           \<or> sigs_only c = 0 \<and> encrypt_only c \<noteq> 0
             \<and> pkttype (snd p) \<in> {PKT_PUBLIC_KEY, PKT_SECRET_KEY, PKT_USER_ID}"
    have st: "proc_step e opt c' p
                = Inr (Leave (RC_ERR G10ERR_UNEXPECTED) (burn_stale_dek c' (snd p)))"
      using proc_step_unexpected [of opt p c' e] assms(1,3) rej fl by simp
    show lp: "proc_loop e opt c (pre @ p # rest)
                = Inr (RC_ERR G10ERR_UNEXPECTED, burn_stale_dek c' (snd p))"
      using loop_reach_proc_loop [OF assms(2), of "p # rest"] st assms(3) by simp
    show "\<forall>r c''. do_proc_packets e opt c (pre @ p # rest) = Inr (r, c'')
                    \<longrightarrow> r = RC_ERR G10ERR_UNEXPECTED"
      using lp by (auto simp: do_proc_packets_def split: sum.splits)
  }
  {
    assume sub: "(sigs_only c \<noteq> 0 \<or> encrypt_only c \<noteq> 0)
             \<and> pkttype (snd p) \<in> {PKT_PUBLIC_SUBKEY, PKT_SECRET_SUBKEY}"
    have "proc_step e opt c' p = Inr (Continue ((burn_stale_dek c' (snd p))\<lparr>have_data := 0\<rparr>))"
      using proc_step_subkey [of opt p c' e] assms(1,3) sub fl by simp
    then show "loop_reach e opt c (pre @ [p])
                = Some ((burn_stale_dek c' (snd p))\<lparr>have_data := 0\<rparr>)"
      using assms(2,3) by (simp add: loop_reach_append)
  }
qed

lemma proc_step_list:
  assumes "proc_step e opt c p = Inr (Continue c')"
  shows "list c' = list c \<or> list c' = [snd p]
     \<or> list c' = list c @ [snd p]
        \<and> pkttype (snd p) \<in> {PKT_ONEPASS_SIG, PKT_SIGNATURE, PKT_USER_ID, PKT_PUBLIC_SUBKEY,
                          PKT_SECRET_SUBKEY}"
  using assms
  by (cases rule: proc_step_Continue) (auto simp: burn_stale_dek_fields dest!: dispatch_list)

lemma proc_step_onepass_list_ok:
  assumes "proc_step e opt c p = Inr (Continue c')" "onepass_list_ok c"
  shows "onepass_list_ok c'"
proof -
  consider (same) "list c' = list c" | (new) "list c' = [snd p]"
    | (app) "list c' = list c @ [snd p]"
        "pkttype (snd p) \<in> {PKT_ONEPASS_SIG, PKT_SIGNATURE, PKT_USER_ID, PKT_PUBLIC_SUBKEY,
                          PKT_SECRET_SUBKEY}"
    using proc_step_list [OF assms(1)] by blast
  then show ?thesis
  proof cases
    case same
    then show ?thesis using assms(2) by (simp add: onepass_list_ok_def)
  next
    case new
    then show ?thesis by (simp add: onepass_list_ok_def)
  next
    case app
    then show ?thesis using assms(2)
      by (cases "list c") (auto simp: onepass_list_ok_def)
  qed
qed

subsection \<open>Lists rooted in a OnePassSig packet\<close>

text \<open>
  C7, as the code has it. add_user_id, add_subkey and add_signature test only that a
  list is open, not what its root is. So, in full mode as in the two others, whenever
  the loop is at its head and the open list has a OnePassSig packet at its root, every
  packet appended behind that root is a OnePassSig, Signature, UserId, PublicSubkey or
  SecretSubkey packet; nothing else is ever appended.
\<close>

theorem onepass_rooted_list_members:
  assumes "loop_reach e opt c pre = Some c'" and "onepass_list_ok c"
  shows "onepass_list_ok c'"
  using assms
proof (induction pre arbitrary: c)
  case Nil
  then show ?case by simp
next
  case (Cons p pre)
  then show ?case
    by (auto split: if_splits sum.splits step.splits dest: proc_step_onepass_list_ok)
qed

lemma proc_step_dek:
  assumes "proc_step e opt c p = Inr (Continue c')" "dek c' = Some d"
  shows "session_key_acquired e p d
     \<or> fst p \<noteq> RC_OK \<and> pkttype (snd p) = PKT_ENCRYPTED \<and> dek c = Some d"
  using assms(1)
proof (cases rule: proc_step_Continue)
  case err
  then show ?thesis using assms(2)
    by (cases "pkttype (snd p) = PKT_ENCRYPTED") (auto simp: burn_stale_dek_fields)
next
  case (ok c2 n)
  show ?thesis
  proof (cases "pkttype (snd p) = PKT_ENCRYPTED")
    case True
    then have "dek c2 = None"
      using dispatch_encrypted [OF ok(2)] by (simp add: proc_encrypted_fields)
    then show ?thesis using ok(4) assms(2) by simp
  next
    case False
    then have "dek (burn_stale_dek c (snd p)) = None" by (simp add: burn_stale_dek_fields)
    moreover have "dek c2 = Some d" using ok(4) assms(2) by simp
    ultimately have "session_key_acquired e (RC_OK, snd p) d"
      using dispatch_dek [OF ok(2)] by blast
    then show ?thesis using ok(1) by (simp add: session_key_acquired_def)
  qed
qed

lemma loop_reach_dek:
  "loop_reach e opt c pre = Some c' \<Longrightarrow> dek c' = Some d \<Longrightarrow>
     (\<exists>pre1 p pre2. pre = pre1 @ p # pre2 \<and> session_key_acquired e p d
        \<and> (\<forall>q \<in> set pre2. fst q \<noteq> RC_OK \<and> pkttype (snd q) = PKT_ENCRYPTED))
     \<or> dek c = Some d \<and> (\<forall>q \<in> set pre. fst q \<noteq> RC_OK \<and> pkttype (snd q) = PKT_ENCRYPTED)"
proof (induction pre arbitrary: c)
  case Nil
  then show ?case by simp
next
  case (Cons p pre)
  from Cons.prems(1) obtain c1 where st: "proc_step e opt c p = Inr (Continue c1)"
    and re: "loop_reach e opt c1 pre = Some c'"
    by (auto split: if_splits sum.splits step.splits)
  from Cons.IH [OF re Cons.prems(2)]
  consider (later) pre1 q pre2 where "pre = pre1 @ q # pre2" "session_key_acquired e q d"
      "\<forall>x \<in> set pre2. fst x \<noteq> RC_OK \<and> pkttype (snd x) = PKT_ENCRYPTED"
    | (kept) "dek c1 = Some d" "\<forall>x \<in> set pre. fst x \<noteq> RC_OK \<and> pkttype (snd x) = PKT_ENCRYPTED"
    by blast
  then show ?case
  proof cases
    case later
    then have "p # pre = (p # pre1) @ q # pre2" by simp
    with later show ?thesis by blast
  next
    case kept
    from proc_step_dek [OF st kept(1)] show ?thesis
    proof
      assume "session_key_acquired e p d"
      then have "p # pre = [] @ p # pre \<and> session_key_acquired e p d" by simp
      with kept(2) show ?thesis by blast
    next
      assume "fst p \<noteq> RC_OK \<and> pkttype (snd p) = PKT_ENCRYPTED \<and> dek c = Some d"
      with kept(2) show ?thesis by simp
    qed
  qed
qed


lemma proc_encrypted_freed:
  "dek c = Some d \<Longrightarrow> freed_deks (fst (proc_encrypted e opt c pkt)) = freed_deks c @ [d]"
  by (simp add: proc_encrypted_def Let_def m_free_dek_def)

lemma proc_pubkey_enc_freed:
  "\<exists>rest. freed_deks (fst (proc_pubkey_enc e c pkt)) = freed_deks c @ rest"
  by (auto simp: proc_pubkey_enc_def Let_def m_free_dek_def split: prod.splits option.splits)

lemma proc_encrypted_freed_ex:
  "\<exists>rest. freed_deks (fst (proc_encrypted e opt c pkt)) = freed_deks c @ rest"
  by (auto simp: proc_encrypted_def Let_def m_free_dek_def split: prod.splits option.splits)

lemma dispatch_freed:
  assumes "dispatch e opt c pkt = Inr (Some (c', n))"
  shows "\<exists>rest. freed_deks c' = freed_deks c @ rest"
  using assms proc_pubkey_enc_freed [of e c pkt] proc_encrypted_freed_ex [of e opt c pkt]
  by (cases "pkttype pkt")
     (auto simp: dispatch_def sub_fields map_sum_def split: if_splits sum.splits)

lemma proc_step_encrypted:
  assumes "proc_step e opt c p = Inr (Continue c')" "fst p = RC_OK"
    "pkttype (snd p) = PKT_ENCRYPTED"
  shows "dek c' = None"
  using assms(1)
proof (cases rule: proc_step_Continue)
  case err
  then show ?thesis using assms(2) by simp
next
  case (ok c2 n)
  then show ?thesis
    using dispatch_encrypted [OF ok(2) assms(3)] by (simp add: proc_encrypted_fields)
qed

lemma proc_step_replaced:
  assumes "proc_step e opt c p = Inr (Continue c')" "dek c = Some d"
  shows "fst p \<noteq> RC_OK \<and> pkttype (snd p) = PKT_ENCRYPTED \<and> dek c' = Some d
           \<and> freed_deks c' = freed_deks c
         \<or> (\<exists>rest. freed_deks c' = freed_deks c @ d # rest)"
  using assms(1)
proof (cases rule: proc_step_Continue)
  case err
  then show ?thesis using assms(2)
    by (cases "pkttype (snd p) = PKT_ENCRYPTED") (auto simp: burn_stale_dek_fields)
next
  case (ok c2 n)
  show ?thesis
  proof (cases "pkttype (snd p) = PKT_ENCRYPTED")
    case True
    then have "c2 = fst (proc_encrypted e opt c (snd p))"
      using dispatch_encrypted [OF ok(2)] by (simp add: burn_stale_dek_fields)
    then show ?thesis using ok(5) proc_encrypted_freed [OF assms(2)] by simp
  next
    case False
    then have "freed_deks (burn_stale_dek c (snd p)) = freed_deks c @ [d]"
      using assms(2) by (simp add: burn_stale_dek_fields)
    moreover obtain rest where "freed_deks c2 = freed_deks (burn_stale_dek c (snd p)) @ rest"
      using dispatch_freed [OF ok(2)] by blast
    ultimately show ?thesis using ok(5) by simp
  qed
qed

subsection \<open>The lifetime of the DEK\<close>

text \<open>
  C8. In a run of the loop that starts without a DEK, whenever the loop is back at its
  head: a DEK is held only if some earlier packet was a PubkeyEnc or SymkeyEnc packet
  that yielded this DEK and nothing has been dispatched since (only failed parses that
  left an Encrypted packet type behind); a held DEK is handed to m_free and the pointer
  nulled before any packet other than an Encrypted one is dispatched; after an Encrypted
  packet has been processed the pointer is null; and a DEK held before an iteration is
  either still held untouched (the failed parse again) or has been handed to m_free, so
  that none is overwritten unfreed.
\<close>

theorem dek_lifetime:
  assumes "dek c = None" and "loop_reach e opt c pre = Some c'"
  shows "(\<forall>d. dek c' = Some d \<longrightarrow>
            (\<exists>pre1 p pre2. pre = pre1 @ p # pre2 \<and> session_key_acquired e p d
               \<and> (\<forall>q \<in> set pre2. fst q \<noteq> RC_OK \<and> pkttype (snd q) = PKT_ENCRYPTED)))
       \<and> (\<forall>pkt. pkttype pkt \<noteq> PKT_ENCRYPTED \<longrightarrow>
            dek (burn_stale_dek c' pkt) = None
            \<and> freed_deks (burn_stale_dek c' pkt)
                = freed_deks c' @ (case dek c' of None \<Rightarrow> [] | Some d \<Rightarrow> [d]))
       \<and> (\<forall>p c''. proc_step e opt c' p = Inr (Continue c'') \<longrightarrow>
            (fst p = RC_OK \<and> pkttype (snd p) = PKT_ENCRYPTED \<longrightarrow> dek c'' = None)
            \<and> (\<forall>d. dek c' = Some d \<longrightarrow>
                 fst p \<noteq> RC_OK \<and> pkttype (snd p) = PKT_ENCRYPTED \<and> dek c'' = Some d
                   \<and> freed_deks c'' = freed_deks c'
                 \<or> (\<exists>rest. freed_deks c'' = freed_deks c' @ d # rest)))"
proof (intro conjI allI impI)
  fix d assume "dek c' = Some d"
  from loop_reach_dek [OF assms(2) this] assms(1)
  show "\<exists>pre1 p pre2. pre = pre1 @ p # pre2 \<and> session_key_acquired e p d
               \<and> (\<forall>q \<in> set pre2. fst q \<noteq> RC_OK \<and> pkttype (snd q) = PKT_ENCRYPTED)"
    by simp
next
  fix pkt :: PACKET assume "pkttype pkt \<noteq> PKT_ENCRYPTED"
  then show "dek (burn_stale_dek c' pkt) = None" by (simp add: burn_stale_dek_fields)
next
  fix pkt :: PACKET assume "pkttype pkt \<noteq> PKT_ENCRYPTED"
  then show "freed_deks (burn_stale_dek c' pkt)
                = freed_deks c' @ (case dek c' of None \<Rightarrow> [] | Some d \<Rightarrow> [d])"
    by (simp add: burn_stale_dek_fields)
next
  fix p c'' assume "proc_step e opt c' p = Inr (Continue c'')"
    "fst p = RC_OK \<and> pkttype (snd p) = PKT_ENCRYPTED"
  then show "dek c'' = None" using proc_step_encrypted by blast
next
  fix p c'' d assume "proc_step e opt c' p = Inr (Continue c'')" "dek c' = Some d"
  then show "fst p \<noteq> RC_OK \<and> pkttype (snd p) = PKT_ENCRYPTED \<and> dek c'' = Some d
                   \<and> freed_deks c'' = freed_deks c'
                 \<or> (\<exists>rest. freed_deks c'' = freed_deks c' @ d # rest)"
    by (rule proc_step_replaced)
qed

lemmas run_defs = proc_step_def dispatch_def burn_stale_dek_def release_list_def proc_tree_def
  add_onepass_sig_def add_user_id_def add_subkey_def add_signature_def add_kbnode_def
  proc_pubkey_enc_def proc_symkey_enc_def proc_encrypted_def proc_compressed_def
  m_free_dek_def free_md_filter_context_def ctx_clear_def env0_def opt0_def mk_packet_def
  do_proc_packets_def proc_packets_def proc_signature_packets_def
  proc_encryption_packets_def Let_def

theorem mode_rejects_unexpected_witness:
  "list_packets opt0 = 0
   \<and> loop_reach env0 opt0 (ctx_clear\<lparr>sigs_only := 1\<rparr>) [(RC_OK, mk_packet PKT_SIGNATURE)]
       = Some (ctx_clear\<lparr>sigs_only := 1, list := [mk_packet PKT_SIGNATURE]\<rparr>)
   \<and> sigs_only (ctx_clear\<lparr>sigs_only := 1\<rparr>) \<noteq> 0
   \<and> proc_loop env0 opt0 (ctx_clear\<lparr>sigs_only := 1\<rparr>)
        ([(RC_OK, mk_packet PKT_SIGNATURE)] @ (RC_OK, mk_packet PKT_ENCRYPTED) # [])
       = Inr (RC_ERR G10ERR_UNEXPECTED,
              ctx_clear\<lparr>sigs_only := 1, list := [mk_packet PKT_SIGNATURE]\<rparr>)
   \<and> loop_reach env0 opt0 (ctx_clear\<lparr>sigs_only := 1\<rparr>)
        ([(RC_OK, mk_packet PKT_SIGNATURE)] @ [(RC_OK, mk_packet PKT_SECRET_SUBKEY)])
       = Some (ctx_clear\<lparr>sigs_only := 1, list := [mk_packet PKT_SIGNATURE]\<rparr>)
   \<and> sigs_only (ctx_clear\<lparr>encrypt_only := 1\<rparr>) = 0
   \<and> encrypt_only (ctx_clear\<lparr>encrypt_only := 1\<rparr>) \<noteq> 0
   \<and> loop_reach env0 opt0 (ctx_clear\<lparr>encrypt_only := 1\<rparr>) [] = Some (ctx_clear\<lparr>encrypt_only := 1\<rparr>)
   \<and> proc_loop env0 opt0 (ctx_clear\<lparr>encrypt_only := 1\<rparr>)
        ([] @ (RC_OK, mk_packet PKT_USER_ID) # [])
       = Inr (RC_ERR G10ERR_UNEXPECTED, ctx_clear\<lparr>encrypt_only := 1\<rparr>)"
proof -
  have h1: "list_packets opt0 = 0" by (simp add: opt0_def)
  have h2: "loop_reach env0 opt0 (ctx_clear\<lparr>sigs_only := 1\<rparr>) [(RC_OK, mk_packet PKT_SIGNATURE)]
       = Some (ctx_clear\<lparr>sigs_only := 1, list := [mk_packet PKT_SIGNATURE]\<rparr>)"
    by (simp add: run_defs)
  have h3: "loop_reach env0 opt0 (ctx_clear\<lparr>encrypt_only := 1\<rparr>) []
       = Some (ctx_clear\<lparr>encrypt_only := 1\<rparr>)"
    by simp
  have b: "burn_stale_dek (ctx_clear\<lparr>sigs_only := 1, list := [mk_packet PKT_SIGNATURE]\<rparr>) pkt
       = ctx_clear\<lparr>sigs_only := 1, list := [mk_packet PKT_SIGNATURE]\<rparr>"
     "burn_stale_dek (ctx_clear\<lparr>encrypt_only := 1\<rparr>) pkt = ctx_clear\<lparr>encrypt_only := 1\<rparr>"
    for pkt
    by (simp_all add: burn_stale_dek_def ctx_clear_def)
  show ?thesis
    using mode_rejects_unexpected [OF h1 h2, of "(RC_OK, mk_packet PKT_ENCRYPTED)" "[]"]
      mode_rejects_unexpected [OF h1 h2, of "(RC_OK, mk_packet PKT_SECRET_SUBKEY)" "[]"]
      mode_rejects_unexpected [OF h1 h3, of "(RC_OK, mk_packet PKT_USER_ID)" "[]"]
      h1 h2 b
    by (simp add: mk_packet_def) (simp add: ctx_clear_def)
qed

text \<open>
  C4 as it is stated fails on a subkey: the signature-only entry point, given a stream
  of one PublicSubkey packet, returns 0 and not G10ERR_UNEXPECTED.
\<close>

theorem sigs_only_subkey_counterexample:
  "proc_signature_packets env0 opt0 [(RC_OK, mk_packet PKT_PUBLIC_SUBKEY)]
     = Inr (RC_OK, ctx_clear\<lparr>sigs_only := 1\<rparr>)"
  by (simp add: run_defs)

theorem onepass_rooted_list_members_witness:
  "loop_reach env0 opt0 ctx_clear
      [(RC_OK, mk_packet PKT_ONEPASS_SIG), (RC_OK, mk_packet PKT_SIGNATURE)]
     = Some (ctx_clear\<lparr>list := [mk_packet PKT_ONEPASS_SIG, mk_packet PKT_SIGNATURE]\<rparr>)
   \<and> onepass_list_ok ctx_clear
   \<and> onepass_list_ok
       (ctx_clear\<lparr>list := [mk_packet PKT_ONEPASS_SIG, mk_packet PKT_SIGNATURE]\<rparr>)"
proof -
  have h1: "loop_reach env0 opt0 ctx_clear
      [(RC_OK, mk_packet PKT_ONEPASS_SIG), (RC_OK, mk_packet PKT_SIGNATURE)]
     = Some (ctx_clear\<lparr>list := [mk_packet PKT_ONEPASS_SIG, mk_packet PKT_SIGNATURE]\<rparr>)"
    by (simp add: run_defs)
  have h2: "onepass_list_ok ctx_clear" by (simp add: onepass_list_ok_def ctx_clear_def)
  show ?thesis using onepass_rooted_list_members [OF h1 h2] h1 h2 by simp
qed

text \<open>
  C7 as it is stated fails: in full mode a UserId packet that follows a OnePassSig
  packet is appended to the list the OnePassSig packet opened.
\<close>

theorem onepass_user_id_counterexample:
  "map_option (map pkttype \<circ> list)
     (loop_reach env0 opt0 ctx_clear
        [(RC_OK, mk_packet PKT_ONEPASS_SIG), (RC_OK, mk_packet PKT_USER_ID)])
   = Some [PKT_ONEPASS_SIG, PKT_USER_ID]"
  by (simp add: run_defs)

theorem dek_lifetime_witness:
  "dek ctx_clear = None
   \<and> loop_reach env0 opt0 ctx_clear [(RC_OK, mk_packet PKT_PUBKEY_ENC)]
       = Some (ctx_clear\<lparr>last_was_session_key := 1, dek := Some 42\<rparr>)
   \<and> (\<exists>pre1 p pre2. [(RC_OK, mk_packet PKT_PUBKEY_ENC)] = pre1 @ p # pre2
         \<and> session_key_acquired env0 p 42
         \<and> (\<forall>q \<in> set pre2. fst q \<noteq> RC_OK \<and> pkttype (snd q) = PKT_ENCRYPTED))
   \<and> pkttype (mk_packet PKT_USER_ID) \<noteq> PKT_ENCRYPTED
   \<and> freed_deks (burn_stale_dek (ctx_clear\<lparr>last_was_session_key := 1, dek := Some 42\<rparr>)
        (mk_packet PKT_USER_ID)) = [42]
   \<and> proc_step env0 opt0 (ctx_clear\<lparr>last_was_session_key := 1, dek := Some 42\<rparr>)
        (RC_OK, mk_packet PKT_ENCRYPTED) = Inr (Continue (ctx_clear\<lparr>freed_deks := [42]\<rparr>))
   \<and> dek (ctx_clear\<lparr>freed_deks := [42]\<rparr>) = None
   \<and> (\<exists>rest. freed_deks (ctx_clear\<lparr>freed_deks := [42]\<rparr>)
         = freed_deks (ctx_clear\<lparr>last_was_session_key := 1, dek := Some 42\<rparr>) @ 42 # rest)"
proof -
  have h1: "dek ctx_clear = None" by (simp add: ctx_clear_def)
  have h2: "loop_reach env0 opt0 ctx_clear [(RC_OK, mk_packet PKT_PUBKEY_ENC)]
       = Some (ctx_clear\<lparr>last_was_session_key := 1, dek := Some 42\<rparr>)"
    by (simp add: run_defs)
  have h3: "proc_step env0 opt0 (ctx_clear\<lparr>last_was_session_key := 1, dek := Some 42\<rparr>)
        (RC_OK, mk_packet PKT_ENCRYPTED) = Inr (Continue (ctx_clear\<lparr>freed_deks := [42]\<rparr>))"
    by (simp add: run_defs)
  have h4: "pkttype (mk_packet PKT_USER_ID) \<noteq> PKT_ENCRYPTED" by (simp add: mk_packet_def)
  have h5: "dek (ctx_clear\<lparr>last_was_session_key := 1, dek := Some 42\<rparr>) = Some 42" by simp
  note t = dek_lifetime [OF h1 h2]
  have a: "\<exists>pre1 p pre2. [(RC_OK, mk_packet PKT_PUBKEY_ENC)] = pre1 @ p # pre2
         \<and> session_key_acquired env0 p 42
         \<and> (\<forall>q \<in> set pre2. fst q \<noteq> RC_OK \<and> pkttype (snd q) = PKT_ENCRYPTED)"
    using t h5 by blast
  have b: "freed_deks (burn_stale_dek (ctx_clear\<lparr>last_was_session_key := 1, dek := Some 42\<rparr>)
        (mk_packet PKT_USER_ID)) = [42]"
    using t h4 by (simp add: ctx_clear_def)
  have c: "dek (ctx_clear\<lparr>freed_deks := [42]\<rparr>) = None"
    using t h3 by (simp add: ctx_clear_def)
  have d: "\<exists>rest. freed_deks (ctx_clear\<lparr>freed_deks := [42]\<rparr>)
         = freed_deks (ctx_clear\<lparr>last_was_session_key := 1, dek := Some 42\<rparr>) @ 42 # rest"
    by (simp add: ctx_clear_def)
  show ?thesis using h1 h2 a h4 b h3 c d by blast
qed

subsection \<open>The session-key flag and the Encrypted packet\<close>

lemma add_flag:
  "add_onepass_sig e opt c pkt = Inr (c', n) \<Longrightarrow> last_was_session_key c' = last_was_session_key c"
  "add_user_id c pkt = Inr (c', n) \<Longrightarrow> last_was_session_key c' = last_was_session_key c"
  "add_subkey c pkt = Inr (c', n) \<Longrightarrow> last_was_session_key c' = last_was_session_key c"
  "add_signature c pkt = Inr (c', n) \<Longrightarrow> last_was_session_key c' = last_was_session_key c"
  by (auto simp: add_onepass_sig_def add_user_id_def add_subkey_def add_signature_def
        add_kbnode_def release_list_fields split: if_splits sum.splits)

lemma proc_flag:
  "last_was_session_key (fst (proc_pubkey_enc e c pkt)) = 1"
  "last_was_session_key (proc_symkey_enc e c pkt)
     = (if seskeylen pkt = 0 then 2 else last_was_session_key c)"
  "last_was_session_key (fst (proc_encrypted e opt c pkt)) = 0"
  "last_was_session_key (proc_plaintext e c pkt) = 0"
  "last_was_session_key (proc_compressed e c pkt) = 0"
  "last_was_session_key (burn_stale_dek c pkt) = last_was_session_key c"
  unfolding proc_pubkey_enc_def proc_symkey_enc_def proc_encrypted_def proc_plaintext_def
    proc_compressed_def burn_stale_dek_def m_free_dek_def Let_def case_prod_beta
  by (simp_all split: option.splits)

lemma dispatch_flag:
  assumes "list_packets opt = 0" "dispatch e opt c pkt = Inr (Some (c', n))"
  shows "last_was_session_key c' = flag_after (last_was_session_key c) (RC_OK, pkt)"
  using assms(2)
  by (cases "pkttype pkt")
     (auto simp: dispatch_def assms(1) flag_after_def proc_flag map_sum_def release_list_fields
           split: if_splits sum.splits dest: add_flag)

lemma proc_step_flag:
  assumes "list_packets opt = 0" "proc_step e opt c p = Inr (Continue c')"
  shows "last_was_session_key c' = flag_after (last_was_session_key c) p"
proof -
  have "last_was_session_key c' = last_was_session_key (burn_stale_dek c (snd p))"
    if "fst p \<noteq> RC_OK"
    using that assms(2) by (auto simp: proc_step_def Let_def split: if_splits)
  moreover have "last_was_session_key c'
      = flag_after (last_was_session_key (burn_stale_dek c (snd p))) (RC_OK, snd p)"
    if ok: "fst p = RC_OK"
  proof -
    obtain c2 n where d: "dispatch e opt (burn_stale_dek c (snd p)) (snd p) = Inr (Some (c2, n))"
      and "last_was_session_key c' = last_was_session_key c2"
      using ok assms(2)
      by (auto simp: proc_step_def Let_def split: if_splits sum.splits option.splits)
    then show ?thesis using dispatch_flag [OF assms(1) d] by simp
  qed
  ultimately show ?thesis
    by (cases "fst p = RC_OK") (simp_all add: proc_flag flag_after_def)
qed

lemma loop_reach_flag:
  assumes "list_packets opt = 0" "loop_reach e opt c pre = Some c'"
  shows "last_was_session_key c' = foldl flag_after (last_was_session_key c) pre"
  using assms(2)
proof (induction pre arbitrary: c)
  case Nil
  then show ?case by simp
next
  case (Cons p pre)
  from Cons.prems obtain c1 where st: "proc_step e opt c p = Inr (Continue c1)"
    and re: "loop_reach e opt c1 pre = Some c'"
    by (auto split: if_splits sum.splits step.splits)
  show ?case using Cons.IH [OF re] proc_step_flag [OF assms(1) st] by simp
qed

lemma proc_step_encrypted_call:
  assumes "list_packets opt = 0" "sigs_only c = 0" "pkttype pkt = PKT_ENCRYPTED"
  shows "proc_step e opt c (RC_OK, pkt)
     = Inr (Continue ((fst (proc_encrypted e opt c pkt))\<lparr>have_data := 0\<rparr>))"
  using assms by (simp add: proc_step_def dispatch_def burn_stale_dek_def Let_def)

text \<open>
  C9, as the code has it. In a run of the loop that does not just list the packets and starts
  with the flag clear, whenever the loop is back at its head last_was_session_key is
  what the packets so far make of it: nonzero exactly when a PubkeyEnc packet, or a
  SymkeyEnc packet without session key, has been processed and no Encrypted, Plaintext
  or Compressed packet since (other packets may lie between; a SymkeyEnc packet with a
  session key does not count). An Encrypted packet is then handed to proc_encrypted with
  this context, and when no DEK is held: with the flag zero the DEK comes from
  passphrase_to_dek and decrypt_data runs with it, with the flag nonzero the result is
  G10ERR_NO_SECKEY; in every case the DEK is handed to m_free, the pointer is null
  afterwards and the flag is zero.
\<close>

theorem encrypted_after_session_key:
  assumes "list_packets opt = 0" and "last_was_session_key c = 0"
    and "loop_reach e opt c pre = Some c'"
  shows "last_was_session_key c' = session_key_flag pre
     \<and> (sigs_only c = 0 \<and> pkttype pkt = PKT_ENCRYPTED \<longrightarrow>
          proc_step e opt c' (RC_OK, pkt)
            = Inr (Continue ((fst (proc_encrypted e opt c' pkt))\<lparr>have_data := 0\<rparr>)))
     \<and> (dek c' = None \<and> session_key_flag pre = 0 \<longrightarrow>
          snd (proc_encrypted e opt c' pkt) =
            decrypt_data e pkt (passphrase_to_dek e
              (if def_cipher_algo opt \<noteq> 0 then def_cipher_algo opt else DEFAULT_CIPHER_ALGO e)
              None)
          \<and> freed_deks (fst (proc_encrypted e opt c' pkt)) =
              freed_deks c' @ (case passphrase_to_dek e
                 (if def_cipher_algo opt \<noteq> 0 then def_cipher_algo opt
                  else DEFAULT_CIPHER_ALGO e) None
                 of None \<Rightarrow> [] | Some d \<Rightarrow> [d]))
     \<and> (dek c' = None \<and> session_key_flag pre \<noteq> 0 \<longrightarrow>
          snd (proc_encrypted e opt c' pkt) = RC_ERR G10ERR_NO_SECKEY
          \<and> freed_deks (fst (proc_encrypted e opt c' pkt)) = freed_deks c')
     \<and> (\<forall>d. dek c' = Some d \<longrightarrow>
          snd (proc_encrypted e opt c' pkt) = decrypt_data e pkt (Some d)
          \<and> freed_deks (fst (proc_encrypted e opt c' pkt)) = freed_deks c' @ [d])
     \<and> dek (fst (proc_encrypted e opt c' pkt)) = None
     \<and> last_was_session_key (fst (proc_encrypted e opt c' pkt)) = 0"
proof -
  have f: "last_was_session_key c' = session_key_flag pre"
    using loop_reach_flag [OF assms(1,3)] assms(2) by (simp add: session_key_flag_def)
  have "sigs_only c' = sigs_only c" using loop_reach_flags [OF assms(3)] by simp
  then have s: "sigs_only c = 0 \<and> pkttype pkt = PKT_ENCRYPTED \<longrightarrow>
          proc_step e opt c' (RC_OK, pkt)
            = Inr (Continue ((fst (proc_encrypted e opt c' pkt))\<lparr>have_data := 0\<rparr>))"
    using proc_step_encrypted_call [OF assms(1), of c' pkt e] by simp
  show ?thesis
    using f s proc_encrypted_result [of c' e opt pkt] unfolding f [symmetric] by blast
qed

lemma session_key_runs:
  "loop_reach env_no_seckey opt0 ctx_clear
     [(RC_OK, mk_packet PKT_PUBKEY_ENC), (RC_OK, mk_packet PKT_MARKER)]
   = Some (ctx_clear\<lparr>last_was_session_key := 1, freed_deks := [0]\<rparr>)"
  "loop_reach env_no_seckey opt0 ctx_clear
     [(RC_OK, mk_packet PKT_PUBKEY_ENC), (RC_OK, mk_packet PKT_COMPRESSED)]
   = Some (ctx_clear\<lparr>freed_deks := [0]\<rparr>)"
  "loop_reach env0 opt0 ctx_clear [(RC_OK, (mk_packet PKT_SYMKEY_ENC)\<lparr>seskeylen := 1\<rparr>)]
   = Some ctx_clear"
  by (simp_all add: run_defs env_no_seckey_def)

theorem encrypted_after_session_key_witness:
  "loop_reach env_no_seckey opt0 ctx_clear
     [(RC_OK, mk_packet PKT_PUBKEY_ENC), (RC_OK, mk_packet PKT_MARKER)]
     = Some (ctx_clear\<lparr>last_was_session_key := 1, freed_deks := [0]\<rparr>)
   \<and> session_key_flag [(RC_OK, mk_packet PKT_PUBKEY_ENC), (RC_OK, mk_packet PKT_MARKER)] = 1
   \<and> snd (proc_encrypted env_no_seckey opt0
            (ctx_clear\<lparr>last_was_session_key := 1, freed_deks := [0]\<rparr>)
            (mk_packet PKT_ENCRYPTED)) = RC_ERR G10ERR_NO_SECKEY
   \<and> loop_reach env_no_seckey opt0 ctx_clear
     [(RC_OK, mk_packet PKT_PUBKEY_ENC), (RC_OK, mk_packet PKT_COMPRESSED)]
     = Some (ctx_clear\<lparr>freed_deks := [0]\<rparr>)
   \<and> session_key_flag [(RC_OK, mk_packet PKT_PUBKEY_ENC), (RC_OK, mk_packet PKT_COMPRESSED)] = 0
   \<and> snd (proc_encrypted env_no_seckey opt0 (ctx_clear\<lparr>freed_deks := [0]\<rparr>)
            (mk_packet PKT_ENCRYPTED)) = RC_OK
   \<and> freed_deks (fst (proc_encrypted env_no_seckey opt0 (ctx_clear\<lparr>freed_deks := [0]\<rparr>)
            (mk_packet PKT_ENCRYPTED))) = [0, 7]"
proof -
  have o: "list_packets opt0 = 0" and c: "last_was_session_key ctx_clear = 0"
    by (simp_all add: opt0_def ctx_clear_def)
  have f: "session_key_flag [(RC_OK, mk_packet PKT_PUBKEY_ENC), (RC_OK, mk_packet PKT_MARKER)] = 1"
    "session_key_flag [(RC_OK, mk_packet PKT_PUBKEY_ENC), (RC_OK, mk_packet PKT_COMPRESSED)] = 0"
    by (simp_all add: session_key_flag_def flag_after_def mk_packet_def)
  from encrypted_after_session_key [OF o c session_key_runs(1), of "mk_packet PKT_ENCRYPTED"]
    encrypted_after_session_key [OF o c session_key_runs(2), of "mk_packet PKT_ENCRYPTED"]
  show ?thesis
    unfolding f using session_key_runs(1,2)
    by (simp add: ctx_clear_def env_no_seckey_def env0_def opt0_def)
qed

text \<open>
  C9 as it is stated fails on two streams. A SymkeyEnc packet that carries a session
  key sets no flag and gives no DEK, so the Encrypted packet right behind it takes the
  passphrase and is decrypted, where the claim has G10ERR_NO_SECKEY. And after a
  PubkeyEnc packet without the secret key and a Marker packet, the Encrypted packet
  gives G10ERR_NO_SECKEY although the packet right before it is no session-key packet.
\<close>

theorem symkey_with_session_key_counterexample:
  "loop_reach env0 opt0 ctx_clear [(RC_OK, (mk_packet PKT_SYMKEY_ENC)\<lparr>seskeylen := 1\<rparr>)]
     = Some ctx_clear
   \<and> proc_step env0 opt0 ctx_clear (RC_OK, mk_packet PKT_ENCRYPTED)
     = Inr (Continue (fst (proc_encrypted env0 opt0 ctx_clear (mk_packet PKT_ENCRYPTED))))
   \<and> proc_encrypted env0 opt0 ctx_clear (mk_packet PKT_ENCRYPTED)
     = (ctx_clear\<lparr>freed_deks := [7]\<rparr>, RC_OK)
   \<and> loop_reach env_no_seckey opt0 ctx_clear
        [(RC_OK, mk_packet PKT_PUBKEY_ENC), (RC_OK, mk_packet PKT_MARKER)]
     = Some (ctx_clear\<lparr>last_was_session_key := 1, freed_deks := [0]\<rparr>)
   \<and> proc_encrypted env_no_seckey opt0
        (ctx_clear\<lparr>last_was_session_key := 1, freed_deks := [0]\<rparr>) (mk_packet PKT_ENCRYPTED)
     = (ctx_clear\<lparr>freed_deks := [0]\<rparr>, RC_ERR G10ERR_NO_SECKEY)"
  by (simp add: run_defs env_no_seckey_def)

section \<open>Properties of the armor filter\<close>

subsection \<open>The faked onepass signature packets\<close>

lemma low_nibble_cases:
  fixes m :: u32
  assumes "m \<le> 15"
  shows "m \<in> {0, 1, 2, 3, 4, 5, 6, 7, 8, 9, 10, 11, 12, 13, 14, 15}"
proof -
  have "unat m \<le> 15" using assms by (simp add: word_le_nat_alt)
  then have "unat m = 0 \<or> unat m = 1 \<or> unat m = 2 \<or> unat m = 3 \<or> unat m = 4 \<or> unat m = 5
     \<or> unat m = 6 \<or> unat m = 7 \<or> unat m = 8 \<or> unat m = 9 \<or> unat m = 10 \<or> unat m = 11
     \<or> unat m = 12 \<or> unat m = 13 \<or> unat m = 14 \<or> unat m = 15"
    by arith
  then show ?thesis by (simp add: word_unat_eq_iff)
qed

lemma loop16:
  "m \<in> {0, 1, 2, 3, 4, 5, 6, 7, 8, 9, 10, 11, 12, 13, 14, 15} \<Longrightarrow> m \<noteq> 0 \<Longrightarrow>
   onepass_sig_loop d m [] = Some (onepass_sig_packets (enabled_hashes d m))"
  apply (elim insertE emptyE)
  apply (simp_all add: onepass_sig_loop.simps enabled_hashes_def onepass_sig_packet_def)
  done


lemma enabled_hashes_mask: "enabled_hashes d (h AND 15) = enabled_hashes d h"
proof -
  have "(h AND 15) AND 1 = h AND 1" "(h AND 15) AND 2 = h AND 2" "(h AND 15) AND 4 = h AND 4"
    "(h AND 15) AND 8 = h AND 8" "(h AND 15) AND 15 = h AND 15"
    by (simp_all add: and.assoc)
  then show ?thesis by (simp add: enabled_hashes_def)
qed

text \<open>
  C2, as the code has it. On entering the faked mode the armor filter writes one
  OnePassSig packet for each hash of the Hash header lines, in the order of the list
  RIPEMD160, SHA1, MD5, TIGER (not in the reverse order), each with sigclass 0x01, keyid
  zero and pubkey algorithm zero, the last flag set on the last packet only; without a
  Hash header the one packet is for MD5. The header of the plaintext packet follows.
\<close>

theorem faked_onepass_sigs:
  "armor_filter_faked d afx
     = Some (onepass_sig_packets (enabled_hashes d (hashes afx))
             @ [0xaf, 0, 6, 0x74, 0] @ replicate 4 0)"
proof -
  define m where "m = hashes afx AND 15"
  have m15: "m \<le> 15" unfolding m_def by (rule word_and_le1)
  have mask: "hashes afx AND (1 OR 2 OR 4 OR 8) = m" by (simp add: m_def)
  show ?thesis
  proof (cases "m = 0")
    case True
    have "enabled_hashes d (hashes afx) = [ALGO_MD5 d]"
      using True by (simp add: enabled_hashes_def m_def)
    moreover have "onepass_sig_loop d 4 [] = Some (onepass_sig_packets (enabled_hashes d 4))"
      by (rule loop16) simp_all
    moreover have "enabled_hashes d 4 = [ALGO_MD5 d]" by (simp add: enabled_hashes_def)
    ultimately show ?thesis
      using True mask by (simp add: armor_filter_faked_def)
  next
    case False
    have "onepass_sig_loop d m [] = Some (onepass_sig_packets (enabled_hashes d m))"
      using low_nibble_cases [OF m15] False by (rule loop16)
    moreover have "enabled_hashes d m = enabled_hashes d (hashes afx)"
      unfolding m_def by (rule enabled_hashes_mask)
    ultimately show ?thesis
      using False mask by (simp add: armor_filter_faked_def)
  qed
qed

lemma replicate_4_8:
  "replicate 4 x = [x, x, x, x]" "replicate 8 x = [x, x, x, x, x, x, x, x]"
  by (simp_all add: numeral_eq_Suc)

text \<open>
  C2 as it is stated fails: with RIPEMD160 and SHA1 enabled the packet for RIPEMD160
  (algorithm 3) comes first and the one for SHA1 (algorithm 2) is the last.
\<close>

theorem faked_onepass_order_counterexample:
  "armor_filter_faked std_algos (afx_clear\<lparr>hashes := 3\<rparr>)
     = Some ([0x90, 13, 3, 1, 3, 0, 0, 0, 0, 0, 0, 0, 0, 0, 0,
              0x90, 13, 3, 1, 2, 0, 0, 0, 0, 0, 0, 0, 0, 0, 1,
              0xaf, 0, 6, 0x74, 0, 0, 0, 0, 0])"
  by (simp add: armor_filter_faked_def onepass_sig_loop.simps std_algos_def afx_clear_def
        replicate_4_8)

subsection \<open>fake_packet: the canonical text\<close>

lemma trim_mark_append:
  "trim_mark (xs @ ys) n mark = trim_mark ys (n + length xs) (trim_mark xs n mark)"
  by (induction xs arbitrary: n mark) simp_all

lemma trim_mark_run:
  "trim_mark l 0 None =
     (if takeWhile is_trim_char (rev l) = [] then None
      else Some (length l - length (takeWhile is_trim_char (rev l))))"
proof (induction l rule: rev_induct)
  case Nil
  then show ?case by simp
next
  case (snoc x xs)
  show ?case
  proof (cases "is_trim_char x")
    case True
    have le: "length (takeWhile is_trim_char (rev xs)) \<le> length xs"
      using length_takeWhile_le [of is_trim_char "rev xs"] by simp
    show ?thesis using True snoc le by (auto simp: trim_mark_append)
  next
    case False
    then show ?thesis by (simp add: trim_mark_append)
  qed
qed

lemma trim_trailing_spaces_strip: "trim_trailing_spaces l = strip_line l"
proof -
  let ?k = "length (takeWhile is_trim_char (rev l))"
  have d: "dropWhile is_trim_char (rev l) = drop ?k (rev l)"
    by (rule dropWhile_eq_drop)
  have "rev (drop ?k (rev l)) = take (length l - ?k) l"
    by (simp add: rev_drop)
  then show ?thesis
    by (auto simp: trim_trailing_spaces_def strip_line_def trim_mark_run d
             simp del: length_0_conv)
qed

lemma strip_line_LF: "strip_line (l @ [LF]) = strip_line l"
  by (simp add: strip_line_def is_trim_char_def)

lemma iobuf_read_line_LF:
  assumes "LF \<notin> set l" "length l < MAX_LINELEN"
  shows "iobuf_read_line (l @ LF # rest) MAX_LINELEN = (l @ [LF], MAX_LINELEN, rest)"
proof -
  have "takeWhile (\<lambda>c. c \<noteq> LF) (l @ LF # rest) = l"
    using assms(1) by (induction l) auto
  moreover have "dropWhile (\<lambda>c. c \<noteq> LF) (l @ LF # rest) = LF # rest"
    using assms(1) by (induction l) auto
  ultimately show ?thesis using assms(2) by (simp add: iobuf_read_line_def)
qed


lemma take2_nth:
  assumes "length p > 2"
  shows "take 2 p = [a, b] \<longleftrightarrow> p ! 0 = a \<and> p ! 1 = b"
proof -
  have "Suc (Suc 0) \<le> length p" using assms by simp
  then obtain x1 x2 xs where "p = x1 # x2 # xs"
    by (auto simp: Suc_le_length_iff)
  then show ?thesis by (simp add: numeral_2_eq_2)
qed

lemma take4_nth:
  assumes "length p \<ge> 15"
  shows "take 4 p = [a, b, c, d] \<longleftrightarrow> p ! 0 = a \<and> p ! 1 = b \<and> p ! 2 = c \<and> p ! 3 = d"
proof -
  have "Suc (Suc (Suc (Suc 0))) \<le> length p" using assms by simp
  then obtain x1 x2 x3 x4 xs where "p = x1 # x2 # x3 # x4 # xs"
    by (auto simp: Suc_le_length_iff)
  then show ?thesis by (simp add: eval_nat_numeral)
qed

lemma read_next_line_text:
  assumes "LF \<notin> set l" "length l < MAX_LINELEN" "\<not> ends_text (strip_line l)"
  shows "read_next_line \<lparr>fs_afx = A, fs_a = l @ LF # rest, fs_emplines = e, fs_out = acc,
                         fs_rc = RC_OK, fs_lastline = False\<rparr>
     = Inr (fake_text_state A (strip_line l)
              (if dash_escaped (not_dash_escaped A) (strip_line l) then 2 else 0) acc rest
            \<lparr>fs_emplines := e\<rparr>)"
proof -
  let ?p = "strip_line l"
  have p: "trim_trailing_spaces (l @ [LF]) = ?p"
    by (simp add: trim_trailing_spaces_strip strip_line_LF)
  have m: "MAX_LINELEN \<noteq> 0" by (simp add: MAX_LINELEN_def)
  show ?thesis
  proof (cases "length ?p > 2")
    case False
    then show ?thesis
      using iobuf_read_line_LF [OF assms(1,2), of rest] p m
      by (simp add: read_next_line_def fake_text_state_def dash_escaped_def Let_def)
  next
    case True
    note long = this
    show ?thesis
    proof (cases "length ?p \<ge> 15")
      case True
      then show ?thesis
        using iobuf_read_line_LF [OF assms(1,2), of rest] p m assms(3) long
          take2_nth [OF long, of DASH SP] take4_nth [OF True, of DASH DASH DASH DASH]
        by (auto simp: read_next_line_def fake_text_state_def dash_escaped_def ends_text_def Let_def)
    next
      case False
      then show ?thesis
        using iobuf_read_line_LF [OF assms(1,2), of rest] p m long
          take2_nth [OF long, of DASH SP]
        by (auto simp: read_next_line_def fake_text_state_def dash_escaped_def Let_def)
    qed
  qed
qed


lemma read_next_line_last:
  assumes "LF \<notin> set l" "length l < MAX_LINELEN" "ends_text (strip_line l)"
  shows "read_next_line \<lparr>fs_afx = A, fs_a = l @ LF # rest, fs_emplines = e, fs_out = acc,
                         fs_rc = RC_OK, fs_lastline = False\<rparr>
     = (if length acc < 2 then Inl AssertFail
        else Inr \<lparr>fs_afx = A\<lparr>buffer := strip_line l, buffer_pos := 0\<rparr>, fs_a = rest,
                  fs_emplines = e, fs_out = take (length acc - 2) acc, fs_rc = RC_EOF,
                  fs_lastline = True\<rparr>)"
proof -
  let ?p = "strip_line l"
  have p: "trim_trailing_spaces (l @ [LF]) = ?p"
    by (simp add: trim_trailing_spaces_strip strip_line_LF)
  have m: "MAX_LINELEN \<noteq> 0" by (simp add: MAX_LINELEN_def)
  have l15: "length ?p \<ge> 15" and t4: "take 4 ?p = [DASH, DASH, DASH, DASH]"
    using assms(3) by (simp_all add: ends_text_def)
  have n: "?p ! 0 = DASH" "?p ! 1 = DASH" "?p ! 2 = DASH" "?p ! 3 = DASH"
    using take4_nth [OF l15, of DASH DASH DASH DASH] t4 by simp_all
  show ?thesis
    using iobuf_read_line_LF [OF assms(1,2), of rest] p m l15 n
    by (simp add: read_next_line_def Let_def fs_len_def)
qed

lemma fake_packet_body_text:
  assumes "faked A \<noteq> 1" "k \<le> length p" "2 + length acc + (length p - k) + 2 < n"
    and "LF \<notin> set l" "length l < MAX_LINELEN" "\<not> ends_text (strip_line l)"
  shows "fake_packet_body n (fake_text_state A p k acc (l @ LF # rest))
     = Inr (fake_text_state A (strip_line l)
              (if dash_escaped (not_dash_escaped A) (strip_line l) then 2 else 0)
              (acc @ drop k p @ [CR, LF]) rest)"
proof -
  have c: "copy_line n (fake_text_state A p k acc (l @ LF # rest))
      = \<lparr>fs_afx = A\<lparr>buffer := p, buffer_pos := length p\<rparr>, fs_a = l @ LF # rest,
         fs_emplines = 0, fs_out = acc @ drop k p @ [CR, LF], fs_rc = RC_OK,
         fs_lastline = False\<rparr>"
    using assms(2,3)
    by (simp add: copy_line_def fake_text_state_def fs_len_def Let_def min_def)
  have "fake_packet_body n (fake_text_state A p k acc (l @ LF # rest))
      = read_next_line \<lparr>fs_afx = A\<lparr>buffer := p, buffer_pos := length p\<rparr>,
           fs_a = l @ LF # rest, fs_emplines = 0, fs_out = acc @ drop k p @ [CR, LF],
           fs_rc = RC_OK, fs_lastline = False\<rparr>"
    using assms(1,3) unfolding fake_packet_body_def c
    by (simp add: fake_text_state_def fs_len_def)
  then show ?thesis
    using read_next_line_text [OF assms(4,5,6)]
    by (simp add: fake_text_state_def)
qed

lemma fake_packet_body_last:
  assumes "faked A \<noteq> 1" "k \<le> length p" "2 + length acc + (length p - k) + 2 < n"
    and "LF \<notin> set l" "length l < MAX_LINELEN" "ends_text (strip_line l)"
  shows "fake_packet_body n (fake_text_state A p k acc (l @ LF # rest))
     = Inr \<lparr>fs_afx = A\<lparr>buffer := strip_line l, buffer_pos := 0\<rparr>, fs_a = rest,
             fs_emplines = 0, fs_out = acc @ drop k p, fs_rc = RC_EOF, fs_lastline = True\<rparr>"
proof -
  have c: "copy_line n (fake_text_state A p k acc (l @ LF # rest))
      = \<lparr>fs_afx = A\<lparr>buffer := p, buffer_pos := length p\<rparr>, fs_a = l @ LF # rest,
         fs_emplines = 0, fs_out = acc @ drop k p @ [CR, LF], fs_rc = RC_OK,
         fs_lastline = False\<rparr>"
    using assms(2,3)
    by (simp add: copy_line_def fake_text_state_def fs_len_def Let_def min_def)
  have "fake_packet_body n (fake_text_state A p k acc (l @ LF # rest))
      = read_next_line \<lparr>fs_afx = A\<lparr>buffer := p, buffer_pos := length p\<rparr>,
           fs_a = l @ LF # rest, fs_emplines = 0, fs_out = acc @ drop k p @ [CR, LF],
           fs_rc = RC_OK, fs_lastline = False\<rparr>"
    using assms(1,3) unfolding fake_packet_body_def c
    by (simp add: fake_text_state_def fs_len_def)
  then show ?thesis
    using read_next_line_last [OF assms(4,5,6)]
    by simp
qed

lemma join_crlf_Cons: "cs \<noteq> [] \<Longrightarrow> join_crlf (c # cs) = c @ [CR, LF] @ join_crlf cs"
  by (cases cs) simp_all

lemma fake_packet_loop_text:
  assumes "faked A \<noteq> 1" "k \<le> length p"
    and "2 + length acc + length (join_crlf (drop k p # map (canonical_line (not_dash_escaped A)) ls)) + 2 < n"
    and "\<forall>l \<in> set ls. LF \<notin> set l \<and> length l < MAX_LINELEN \<and> \<not> ends_text (strip_line l)"
    and "LF \<notin> set t" "length t < MAX_LINELEN" "ends_text (strip_line t)"
  shows "fake_packet_loop n (fake_text_state A p k acc (text_input ls @ t @ LF # rest))
     = Inr \<lparr>fs_afx = A\<lparr>buffer := strip_line t, buffer_pos := 0\<rparr>, fs_a = rest,
             fs_emplines = 0,
             fs_out = acc @ join_crlf (drop k p # map (canonical_line (not_dash_escaped A)) ls),
             fs_rc = RC_EOF, fs_lastline = True\<rparr>"
  using assms(2,3,4)
proof (induction ls arbitrary: p k acc)
  case Nil
  have fit: "2 + length acc + (length p - k) + 2 < n" using Nil.prems(2) by simp
  have run: "fake_running n (fake_text_state A p k acc (t @ LF # rest))"
    using fit by (simp add: fake_running_def fake_text_state_def fs_len_def)
  have stop: "\<not> fake_running n \<lparr>fs_afx = A\<lparr>buffer := strip_line t, buffer_pos := 0\<rparr>,
      fs_a = rest, fs_emplines = 0, fs_out = acc @ drop k p, fs_rc = RC_EOF,
      fs_lastline = True\<rparr>"
    by (simp add: fake_running_def)
  show ?case
    using run stop fake_packet_body_last [OF assms(1) Nil.prems(1) fit assms(5,6,7), of rest]
    by (simp add: text_input_def fake_packet_loop.simps)
next
  case (Cons l ls)
  let ?nde = "not_dash_escaped A"
  let ?q = "strip_line l"
  let ?k = "if dash_escaped ?nde ?q then 2 else 0 :: nat"
  have cl: "canonical_line ?nde l = drop ?k ?q" by (simp add: canonical_line_def)
  have j: "join_crlf (drop k p # map (canonical_line ?nde) (l # ls))
      = drop k p @ [CR, LF] @ join_crlf (drop ?k ?q # map (canonical_line ?nde) ls)"
    by (simp add: cl)
  have fit: "2 + length acc + (length p - k) + 2 < n" using Cons.prems(2) j by simp
  have run: "fake_running n (fake_text_state A p k acc ((l @ LF # text_input ls) @ t @ LF # rest))"
    using fit by (simp add: fake_running_def fake_text_state_def fs_len_def)
  have lc: "LF \<notin> set l" "length l < MAX_LINELEN" "\<not> ends_text ?q"
    using Cons.prems(3) by simp_all
  have kq: "?k \<le> length ?q" by (simp add: dash_escaped_def)
  have fit': "2 + length (acc @ drop k p @ [CR, LF])
      + length (join_crlf (drop ?k ?q # map (canonical_line ?nde) ls)) + 2 < n"
    using Cons.prems(2) j by simp
  have rest': "\<forall>l \<in> set ls. LF \<notin> set l \<and> length l < MAX_LINELEN \<and> \<not> ends_text (strip_line l)"
    using Cons.prems(3) by simp
  have inp: "text_input (l # ls) @ t @ LF # rest = l @ LF # (text_input ls @ t @ LF # rest)"
    by (simp add: text_input_def)
  have "fake_packet_loop n (fake_text_state A p k acc (text_input (l # ls) @ t @ LF # rest))
      = fake_packet_loop n (fake_text_state A ?q ?k (acc @ drop k p @ [CR, LF])
          (text_input ls @ t @ LF # rest))"
    unfolding inp
    using run fake_packet_body_text [OF assms(1) Cons.prems(1) fit lc,
        of "text_input ls @ t @ LF # rest"]
    by (subst fake_packet_loop.simps) (simp add: text_input_def)
  also have "\<dots> = Inr \<lparr>fs_afx = A\<lparr>buffer := strip_line t, buffer_pos := 0\<rparr>, fs_a = rest,
             fs_emplines = 0,
             fs_out = (acc @ drop k p @ [CR, LF])
                @ join_crlf (drop ?k ?q # map (canonical_line ?nde) ls),
             fs_rc = RC_EOF, fs_lastline = True\<rparr>"
    by (rule Cons.IH [OF kq fit' rest'])
  finally show ?case using j by simp
qed


lemma fake_packet_loop_first:
  assumes "faked afx = 1" "empty afx = 0" "ls \<noteq> []"
    and "\<forall>l \<in> set ls. LF \<notin> set l \<and> length l < MAX_LINELEN \<and> \<not> ends_text (strip_line l)"
    and "LF \<notin> set t" "length t < MAX_LINELEN" "ends_text (strip_line t)"
    and "length (canonical_text (not_dash_escaped afx) ls) + 4 < n"
  shows "fake_packet_loop n
           \<lparr>fs_afx = afx, fs_a = text_input ls @ t @ LF # rest, fs_emplines = empty afx,
            fs_out = [], fs_rc = RC_OK, fs_lastline = False\<rparr>
     = Inr \<lparr>fs_afx = afx\<lparr>faked := 2, buffer := strip_line t, buffer_pos := 0\<rparr>, fs_a = rest,
             fs_emplines = 0, fs_out = canonical_text (not_dash_escaped afx) ls,
             fs_rc = RC_EOF, fs_lastline = True\<rparr>"
proof -
  obtain l ls' where ls: "ls = l # ls'" using assms(3) by (cases ls) auto
  let ?nde = "not_dash_escaped afx"
  let ?A = "afx\<lparr>faked := 2\<rparr>"
  let ?q = "strip_line l"
  let ?k = "if dash_escaped ?nde ?q then 2 else 0 :: nat"
  have lc: "LF \<notin> set l" "length l < MAX_LINELEN" "\<not> ends_text ?q"
    using assms(4) ls by simp_all
  have rest': "\<forall>l \<in> set ls'. LF \<notin> set l \<and> length l < MAX_LINELEN \<and> \<not> ends_text (strip_line l)"
    using assms(4) ls by simp
  have inp: "text_input ls @ t @ LF # rest = l @ LF # (text_input ls' @ t @ LF # rest)"
    by (simp add: text_input_def ls)
  have run: "fake_running n \<lparr>fs_afx = afx, fs_a = l @ LF # (text_input ls' @ t @ LF # rest),
      fs_emplines = empty afx, fs_out = [], fs_rc = RC_OK, fs_lastline = False\<rparr>"
    using assms(8) by (simp add: fake_running_def fs_len_def)
  have body: "fake_packet_body n \<lparr>fs_afx = afx, fs_a = l @ LF # (text_input ls' @ t @ LF # rest),
      fs_emplines = empty afx, fs_out = [], fs_rc = RC_OK, fs_lastline = False\<rparr>
     = Inr (fake_text_state ?A ?q ?k [] (text_input ls' @ t @ LF # rest))"
    using assms(1,2) read_next_line_text [OF lc, of ?A "text_input ls' @ t @ LF # rest" 0 "[]"]
    by (simp add: fake_packet_body_def fake_text_state_def)
  have cl: "canonical_line ?nde l = drop ?k ?q" by (simp add: canonical_line_def)
  have ct: "canonical_text ?nde ls = join_crlf (drop ?k ?q # map (canonical_line ?nde) ls')"
    by (simp add: canonical_text_def ls cl)
  have f: "faked ?A \<noteq> 1" by simp
  have kq: "?k \<le> length ?q" by (simp add: dash_escaped_def)
  have fit: "2 + length ([] :: byte list)
      + length (join_crlf (drop ?k ?q # map (canonical_line (not_dash_escaped ?A)) ls')) + 2 < n"
    using assms(8) ct by simp
  have rest'': "\<forall>l \<in> set ls'. LF \<notin> set l \<and> length l < MAX_LINELEN \<and> \<not> ends_text (strip_line l)"
    using rest' .
  have "fake_packet_loop n
           \<lparr>fs_afx = afx, fs_a = text_input ls @ t @ LF # rest, fs_emplines = empty afx,
            fs_out = [], fs_rc = RC_OK, fs_lastline = False\<rparr>
     = fake_packet_loop n (fake_text_state ?A ?q ?k [] (text_input ls' @ t @ LF # rest))"
    unfolding inp using run body by (subst fake_packet_loop.simps) simp
  also have "\<dots> = Inr \<lparr>fs_afx = ?A\<lparr>buffer := strip_line t, buffer_pos := 0\<rparr>, fs_a = rest,
             fs_emplines = 0,
             fs_out = [] @ join_crlf (drop ?k ?q # map (canonical_line (not_dash_escaped ?A)) ls'),
             fs_rc = RC_EOF, fs_lastline = True\<rparr>"
    by (rule fake_packet_loop_text [OF f kq fit rest'' assms(5,6,7)])
  finally show ?thesis using ct by simp
qed

lemma fake_packet_text:
  assumes "faked afx = 1" "empty afx = 0" "ls \<noteq> []"
    and "\<forall>l \<in> set ls. LF \<notin> set l \<and> length l < MAX_LINELEN \<and> \<not> ends_text (strip_line l)"
    and "LF \<notin> set t" "length t < MAX_LINELEN" "ends_text (strip_line t)"
    and "length (canonical_text (not_dash_escaped afx) ls) + 7 < sz"
  shows "fake_packet afx (text_input ls @ t @ LF # rest) sz
     = (case fake_packet_headers
               (afx\<lparr>faked := 0, in_cleartext := 0, buffer := strip_line t, buffer_pos := 0\<rparr>) rest of
          Inl f \<Rightarrow> Inl f
        | Inr (r, afx2, a') \<Rightarrow>
            Inr (r, fake_chunk (canonical_text (not_dash_escaped afx) ls),
                 afx2\<lparr>inp_checked := 1, crc := CRCINIT, idx := 0, radbuf0 := 0, empty := 0\<rparr>,
                 a'))"
proof -
  have fit: "length (canonical_text (not_dash_escaped afx) ls) + 4 < sz - 3"
    using assms(8) by simp
  let ?Y = "afx\<lparr>faked := 0, in_cleartext := 0, buffer := strip_line t, buffer_pos := 0\<rparr>"
  have e: "afx\<lparr>buffer := strip_line t, faked := 0, in_cleartext := 0, buffer_pos := 0\<rparr> = ?Y"
    by (cases afx) simp
  show ?thesis
  proof (cases "fake_packet_headers ?Y rest")
    case (Inl f)
    then show ?thesis
      unfolding fake_packet_def fake_packet_loop_first [OF assms(1-7) fit]
      by (simp add: Let_def e)
  next
    case (Inr x)
    then obtain r afx2 a' where "fake_packet_headers ?Y rest = Inr (r, afx2, a')"
      by (cases x) auto
    then show ?thesis
      unfolding fake_packet_def fake_packet_loop_first [OF assms(1-7) fit]
      by (simp add: fake_chunk_def Let_def drop_bit_eq_div e)
  qed
qed


lemma is_armor_header_ends_text:
  assumes "is_armor_header p = BEGIN_SIGNATURE"
  shows "ends_text p"
proof -
  have l: "length p \<ge> 15" and t: "take 5 p = bytes_of ''-----''"
    using assms by (auto simp: is_armor_header_def BEGIN_SIGNATURE_def split: if_splits)
  have "take 4 p = take 4 (take 5 p)" by simp
  also have "\<dots> = [DASH, DASH, DASH, DASH]" unfolding t by (simp add: bytes_of_def)
  finally show ?thesis using l by (simp add: ends_text_def)
qed

lemma parse_header_line_flags:
  "parse_header_line afx line = (i, afx') \<Longrightarrow>
     faked afx' = faked afx \<and> in_cleartext afx' = in_cleartext afx"
  by (auto simp: parse_header_line_def Let_def split: if_splits)

lemma fake_packet_headers_flags:
  "fake_packet_headers afx a = Inr (r, afx', a') \<Longrightarrow>
     faked afx' = faked afx \<and> in_cleartext afx' = in_cleartext afx"
proof (induction afx a rule: fake_packet_headers.induct)
  case (1 afx a)
  obtain line a1 where rw: "read_whole_line a = (line, a1)" by (cases "read_whole_line a") auto
  obtain i afx1 where ph: "parse_header_line afx line = (i, afx1)"
    by (cases "parse_header_line afx line") auto
  show ?case
  proof (cases "line = []")
    case True
    then show ?thesis using "1.prems" rw
      by (subst (asm) fake_packet_headers.simps) auto
  next
    case False
    show ?thesis
    proof (cases "i \<le> 0")
      case True
      then show ?thesis using "1.prems" rw ph False parse_header_line_flags [OF ph]
        by (subst (asm) fake_packet_headers.simps) (auto split: if_splits)
    next
      case False
      have "fake_packet_headers (afx1\<lparr>buffer := trim_in_place line\<rparr>) a1 = Inr (r, afx', a')"
        using "1.prems" rw ph \<open>line \<noteq> []\<close> False
        by (subst (asm) fake_packet_headers.simps) simp
      from "1.IH" [OF rw [symmetric] refl \<open>line \<noteq> []\<close> ph [symmetric] refl False this]
      show ?thesis using parse_header_line_flags [OF ph] by simp
    qed
  qed
qed

lemma join_crlf_concat:
  "cs \<noteq> [] \<Longrightarrow>
     join_crlf cs = take (length (concat (map (\<lambda>c. c @ [CR, LF]) cs)) - 2)
                      (concat (map (\<lambda>c. c @ [CR, LF]) cs))"
proof (induction cs rule: join_crlf.induct)
  case 1
  then show ?case by simp
next
  case (2 c)
  then show ?case by simp
next
  case (3 c v va)
  then show ?case by simp
qed



text \<open>
  C6, where the code departs from it. The trailer is written under
  \<open>if (buf[0] && buf[1])\<close>, commented \<open>only if we have some text\<close>; buf[0] and
  buf[1] are the high and the low byte of the length of the text, so the test fails for
  every text of less than 256 bytes. For a clearsigned text of at least one line,
  handled in one call as above and ended by a BEGIN PGP SIGNATURE armor header, whose
  canonical form without the last CR LF has less than 256 bytes: the output is the
  length header and the text and ends there, no trailer closes the packet; a call that
  returns has left the faked mode.
\<close>

theorem fake_packet_short_text_no_trailer:
  assumes "faked afx = 1" and "empty afx = 0" and "ls \<noteq> []"
    and "\<forall>l \<in> set ls. LF \<notin> set l \<and> length l < MAX_LINELEN \<and> \<not> ends_text (strip_line l)"
    and "LF \<notin> set t" and "length t < MAX_LINELEN"
    and "is_armor_header (strip_line t) = BEGIN_SIGNATURE"
    and "length (concat (map (\<lambda>l. canonical_line (not_dash_escaped afx) l @ [CR, LF]) ls)) + 5 < sz"
    and "length (concat (map (\<lambda>l. canonical_line (not_dash_escaped afx) l @ [CR, LF]) ls)) < 258"
  shows "let txt = concat (map (\<lambda>l. canonical_line (not_dash_escaped afx) l @ [CR, LF]) ls);
             body = take (length txt - 2) txt
         in fake_packet afx (text_input ls @ t @ LF # rest) sz
               = (case fake_packet_headers
                        (afx\<lparr>faked := 0, in_cleartext := 0, buffer := strip_line t,
                             buffer_pos := 0\<rparr>) rest of
                    Inl f \<Rightarrow> Inl f
                  | Inr (r, afx2, a') \<Rightarrow>
                      Inr (r, 0 # of_nat (length body) # body,
                           afx2\<lparr>inp_checked := 1, crc := CRCINIT, idx := 0, radbuf0 := 0,
                                empty := 0\<rparr>, a'))
            \<and> (\<forall>r out afx' a'.
                  fake_packet afx (text_input ls @ t @ LF # rest) sz = Inr (r, out, afx', a')
                  \<longrightarrow> faked afx' = 0 \<and> in_cleartext afx' = 0 \<and> inp_checked afx' = 1)"
proof -
  let ?nde = "not_dash_escaped afx"
  let ?txt = "concat (map (\<lambda>l. canonical_line ?nde l @ [CR, LF]) ls)"
  let ?b = "take (length ?txt - 2) ?txt"
  let ?Y = "afx\<lparr>faked := 0, in_cleartext := 0, buffer := strip_line t, buffer_pos := 0\<rparr>"
  have et: "ends_text (strip_line t)" using assms(7) by (rule is_armor_header_ends_text)
  have ct: "canonical_text ?nde ls = ?b"
    using join_crlf_concat [of "map (canonical_line ?nde) ls"] assms(3)
    by (simp add: canonical_text_def comp_def)
  have "length ?txt \<ge> 2" using assms(3) by (cases ls) simp_all
  then have fit: "length (canonical_text ?nde ls) + 7 < sz" using assms(8) unfolding ct by simp
  have short: "length ?b < 256" using assms(9) by simp
  then have hi: "length ?b div 256 = 0" by simp
  have c: "fake_chunk ?b = 0 # of_nat (length ?b) # ?b"
    unfolding fake_chunk_def Let_def hi by simp
  note fp = fake_packet_text [OF assms(1-4) assms(5,6) et fit, of rest, unfolded ct c]
  have fl: "faked afx' = 0 \<and> in_cleartext afx' = 0 \<and> inp_checked afx' = 1"
    if "fake_packet afx (text_input ls @ t @ LF # rest) sz = Inr (r, out, afx', a')"
    for r out afx' a'
  proof (cases "fake_packet_headers ?Y rest")
    case (Inl f)
    then show ?thesis using that fp by simp
  next
    case (Inr x)
    then obtain r2 afx2 a2 where h: "fake_packet_headers ?Y rest = Inr (r2, afx2, a2)"
      by (cases x) auto
    from fake_packet_headers_flags [OF h] have "faked afx2 = 0" "in_cleartext afx2 = 0"
      by simp_all
    then show ?thesis using that fp h by auto
  qed
  from fp fl show ?thesis unfolding Let_def by blast
qed

lemma fake_packet_empty_text:
  assumes "faked afx = 1" "empty afx = 0" "5 < sz"
    and "LF \<notin> set t" "length t < MAX_LINELEN" "ends_text (strip_line t)"
  shows "fake_packet afx (t @ LF # rest) sz = Inl AssertFail"
proof -
  have run: "fake_running (sz - 3) \<lparr>fs_afx = afx, fs_a = t @ LF # rest, fs_emplines = empty afx,
      fs_out = [], fs_rc = RC_OK, fs_lastline = False\<rparr>"
    using assms(3) by (simp add: fake_running_def fs_len_def)
  have "fake_packet_body (sz - 3) \<lparr>fs_afx = afx, fs_a = t @ LF # rest, fs_emplines = empty afx,
      fs_out = [], fs_rc = RC_OK, fs_lastline = False\<rparr> = Inl AssertFail"
    using assms(1,2) read_next_line_last [OF assms(4,5,6), of "afx\<lparr>faked := 2\<rparr>" rest 0 "[]"]
    by (simp add: fake_packet_body_def)
  then show ?thesis
    using run by (simp add: fake_packet_def fake_packet_loop.simps)
qed

lemma fake_packet_headers_blank:
  "fake_packet_headers afx [LF] = Inr (RC_OK, afx\<lparr>buffer := [LF]\<rparr>, [])"
  by (simp add: fake_packet_headers.simps read_whole_line.simps iobuf_read_line_def
        MAX_LINELEN_def parse_header_line_def)

lemma begin_signature_line:
  "LF \<notin> set (bytes_of ''-----BEGIN PGP SIGNATURE-----'')"
  "length (bytes_of ''-----BEGIN PGP SIGNATURE-----'') < MAX_LINELEN"
  "strip_line (bytes_of ''-----BEGIN PGP SIGNATURE-----'') = bytes_of ''-----BEGIN PGP SIGNATURE-----''"
  "is_armor_header (bytes_of ''-----BEGIN PGP SIGNATURE-----'') = BEGIN_SIGNATURE"
  "ends_text (bytes_of ''-----BEGIN PGP SIGNATURE-----'')"
  by (simp_all add: bytes_of_def MAX_LINELEN_def strip_line_def is_trim_char_def
        is_armor_header_def cstr_def head_strings_def BEGIN_SIGNATURE_def ends_text_def)

text \<open>
  The empty text: with the armor header as the first line read, len is still 2 and
  \<open>assert (len >= 4)\<close> stops the program.
\<close>

lemma fake_packet_empty_body_assert:
  "fake_packet (afx_clear\<lparr>faked := 1, in_cleartext := 1\<rparr>)
     (bytes_of ''-----BEGIN PGP SIGNATURE-----'' @ LF # [LF]) 100 = Inl AssertFail"
  by (rule fake_packet_empty_text) (simp_all add: afx_clear_def begin_signature_line)



lemma sample_facts:
  "faked clearsig_afx = 1" "empty clearsig_afx = 0" "sample_text \<noteq> []"
  "\<forall>l \<in> set sample_text. LF \<notin> set l \<and> length l < MAX_LINELEN \<and> \<not> ends_text (strip_line l)"
  "LF \<notin> set begin_signature" "length begin_signature < MAX_LINELEN"
  "strip_line begin_signature = begin_signature"
  "is_armor_header begin_signature = BEGIN_SIGNATURE"
  "not_dash_escaped clearsig_afx = 0"
  by (simp_all add: clearsig_afx_def afx_clear_def sample_text_def begin_signature_def
        begin_signature_line,
      simp_all add: bytes_of_def MAX_LINELEN_def ends_text_def strip_line_def is_trim_char_def)

lemma sample_canonical:
  "map (canonical_line 0) sample_text = [[0x2D, 0x64, 0x61, 0x73, 0x68], [], [0x65, 0x6E, 0x64]]"
  by (simp add: sample_text_def canonical_line_def strip_line_def dash_escaped_def
        is_trim_char_def bytes_of_def)


theorem fake_packet_short_text_no_trailer_witness:
  "fake_packet clearsig_afx (text_input sample_text @ begin_signature @ LF # [LF]) 100
     = Inr (RC_OK, [0, 12, 0x2D, 0x64, 0x61, 0x73, 0x68, CR, LF, CR, LF, 0x65, 0x6E, 0x64],
            clearsig_afx\<lparr>faked := 0, in_cleartext := 0, buffer := [LF], buffer_pos := 0,
              inp_checked := 1, crc := CRCINIT, idx := 0, radbuf0 := 0, empty := 0\<rparr>, [])"
proof -
  have ia: "is_armor_header (strip_line begin_signature) = BEGIN_SIGNATURE"
    using sample_facts(7,8) by simp
  have tx: "concat (map (\<lambda>l. canonical_line (not_dash_escaped clearsig_afx) l @ [CR, LF])
               sample_text)
      = [0x2D, 0x64, 0x61, 0x73, 0x68, CR, LF, CR, LF, 0x65, 0x6E, 0x64, CR, LF]"
    using sample_canonical
    by (simp add: sample_facts(9) sample_text_def)
  have fit: "length (concat (map (\<lambda>l. canonical_line (not_dash_escaped clearsig_afx) l @ [CR, LF])
               sample_text)) + 5 < 100"
    and short: "length (concat (map (\<lambda>l. canonical_line (not_dash_escaped clearsig_afx) l
               @ [CR, LF]) sample_text)) < 258"
    unfolding tx by simp_all
  from fake_packet_short_text_no_trailer [OF sample_facts(1-6) ia fit short, of "[LF]",
      unfolded tx Let_def]
  have eq: "fake_packet clearsig_afx (text_input sample_text @ begin_signature @ LF # [LF]) 100
      = (case fake_packet_headers
                (clearsig_afx\<lparr>faked := 0, in_cleartext := 0,
                   buffer := strip_line begin_signature, buffer_pos := 0\<rparr>) [LF] of
           Inl f \<Rightarrow> Inl f
         | Inr (r, afx2, a') \<Rightarrow>
             Inr (r, 0 # of_nat (length (take (length [0x2D, 0x64, 0x61, 0x73, 0x68, CR, LF, CR, LF,
                                0x65, 0x6E, 0x64, CR, LF :: byte] - 2)
                          [0x2D, 0x64, 0x61, 0x73, 0x68, CR, LF, CR, LF, 0x65, 0x6E, 0x64, CR, LF]))
                  # take (length [0x2D, 0x64, 0x61, 0x73, 0x68, CR, LF, CR, LF,
                                0x65, 0x6E, 0x64, CR, LF :: byte] - 2)
                          [0x2D, 0x64, 0x61, 0x73, 0x68, CR, LF, CR, LF, 0x65, 0x6E, 0x64, CR, LF],
                  afx2\<lparr>inp_checked := 1, crc := CRCINIT, idx := 0, radbuf0 := 0, empty := 0\<rparr>,
                  a'))"
    by blast
  show ?thesis unfolding eq fake_packet_headers_blank by simp
qed

subsection \<open>radix64_read: the CRC\<close>

lemma crc_bad_tuple: "crc_bad (e, i, m, r) \<longleftrightarrow> e \<or> i \<noteq> 4"
  by (simp add: crc_bad_def)

lemma crc_chars_3:
  "i = 3 \<Longrightarrow> crc_bad (crc_chars i c a val m) \<longleftrightarrow> \<not> (radix64_char c \<and> a \<noteq> [])"
  unfolding crc_chars.simps [of i c a val m]
  by (cases a) (simp_all add: crc_bad_tuple radix64_char_def Let_def)

lemma crc_chars_2:
  "i = 2 \<Longrightarrow> crc_bad (crc_chars i c a val m)
     \<longleftrightarrow> \<not> (radix64_char c \<and> (\<exists>c4 x rest. a = c4 # x # rest \<and> radix64_char c4))"
  unfolding crc_chars.simps [of i c a val m]
  by (cases a) (auto simp: crc_chars_3 crc_bad_tuple radix64_char_def Let_def neq_Nil_conv)

lemma crc_chars_1:
  "i = 1 \<Longrightarrow> crc_bad (crc_chars i c a val m)
     \<longleftrightarrow> \<not> (radix64_char c
            \<and> (\<exists>c3 c4 x rest. a = c3 # c4 # x # rest \<and> radix64_char c3 \<and> radix64_char c4))"
  unfolding crc_chars.simps [of i c a val m]
  by (cases a) (auto simp: crc_chars_2 crc_bad_tuple radix64_char_def Let_def)

lemma crc_chars_0:
  "crc_bad (crc_chars 0 c a val m)
     \<longleftrightarrow> \<not> (radix64_char c
            \<and> (\<exists>c2 c3 c4 x rest. a = c2 # c3 # c4 # x # rest
                  \<and> radix64_char c2 \<and> radix64_char c3 \<and> radix64_char c4))"
  unfolding crc_chars.simps [of 0 c a val m]
  by (cases a) (auto simp: crc_chars_1 crc_bad_tuple radix64_char_def Let_def)

lemma crc_chars_step:
  assumes "radix64_char c" "i < 3"
  shows "crc_chars i c (c' # a') val m
     = crc_chars (Suc i) c' a'
         (if i = 0 then push_bit 2 (asctobin ! unat c)
          else if i = 1 then push_bit 4 (asctobin ! unat c) AND 0xf0
          else push_bit 6 (asctobin ! unat c) AND 0xc0)
         (if i = 0 then m
          else if i = 1 then m OR push_bit 16 (ucast (val OR (drop_bit 4 (asctobin ! unat c) AND 3)))
          else m OR push_bit 8 (ucast (val OR (drop_bit 2 (asctobin ! unat c) AND 15))))"
  using assms
  by (subst crc_chars.simps) (auto simp: Let_def radix64_char_def)

lemma crc_chars_last:
  assumes "radix64_char c" "i = 3"
  shows "crc_chars i c (c' # a') val m
     = (False, 4, m OR ucast (val OR (asctobin ! unat c AND 0x3f)), a')"
  using assms
  by (subst crc_chars.simps) (simp add: Let_def radix64_char_def)

lemma crc_chars_four:
  assumes "radix64_char c1" "radix64_char c2" "radix64_char c3" "radix64_char c4"
  shows "crc_chars 0 c1 (c2 # c3 # c4 # x # rest) val 0
           = (False, 4, crc24_of_chars c1 c2 c3 c4, rest)"
  using assms
  by (simp add: crc_chars_step crc_chars_last crc24_of_chars_def Let_def or.assoc)

lemma radix64_read_pad:
  assumes "radix64_loop sz a (nat (idx afx)) (radbuf0 afx) [] = (True, i, val, buf, a1)"
    and "buf \<noteq> []"
  shows "fst (radix64_read afx a sz)
     = (case skip_pad a1 of
          [] \<Rightarrow> RC_OK
        | c # a' \<Rightarrow>
            if crc_bad (crc_chars 0 c a' val 0) then RC_ERR G10ERR_INVALID_ARMOR
            else if fst (snd (snd (crc_chars 0 c a' val 0))) \<noteq> running_crc afx buf
              then RC_ERR G10ERR_INVALID_ARMOR
            else RC_OK)"
  using assms
  by (auto simp: radix64_read_def running_crc_def crc_bad_def Let_def
           split: list.splits prod.splits)


lemma radix64_read_nothing_decoded:
  assumes "radix64_loop sz a (nat (idx afx)) (radbuf0 afx) [] = (checkcrc, i, val, [], a1)"
  shows "fst (radix64_read afx a sz) = RC_EOF"
  using assms by (simp add: radix64_read_def Let_def split: prod.splits)

text \<open>
  C3, as the code has it. When a call of radix64_read has written at least one byte and
  has come to the \<open>=\<close> terminator, it skips white space and further \<open>=\<close> characters.
  If the input ends there, it returns 0: a missing CRC is logged only. If four
  characters of the alphabet and one more character follow, it returns 0 when the CRC
  they give is the running CRC and G10ERR_INVALID_ARMOR when it differs. In every other
  case (fewer than four characters of the alphabet before another character, or the end
  of the input within the CRC or right behind its fourth character) it returns
  G10ERR_INVALID_ARMOR. It does not look for the END line.
\<close>

theorem radix64_read_crc_check:
  assumes "radix64_loop sz a (nat (idx afx)) (radbuf0 afx) [] = (True, i, val, buf, a1)"
    and "buf \<noteq> []"
  shows "(skip_pad a1 = [] \<longrightarrow> fst (radix64_read afx a sz) = RC_OK)
     \<and> (\<forall>c1 c2 c3 c4 x rest.
           skip_pad a1 = c1 # c2 # c3 # c4 # x # rest
           \<and> radix64_char c1 \<and> radix64_char c2 \<and> radix64_char c3 \<and> radix64_char c4
           \<longrightarrow> fst (radix64_read afx a sz)
                 = (if crc24_of_chars c1 c2 c3 c4 = running_crc afx buf then RC_OK
                    else RC_ERR G10ERR_INVALID_ARMOR))
     \<and> (skip_pad a1 \<noteq> []
          \<and> \<not> (\<exists>c1 c2 c3 c4 x rest.
                  skip_pad a1 = c1 # c2 # c3 # c4 # x # rest
                  \<and> radix64_char c1 \<and> radix64_char c2 \<and> radix64_char c3 \<and> radix64_char c4)
          \<longrightarrow> fst (radix64_read afx a sz) = RC_ERR G10ERR_INVALID_ARMOR)"
proof (intro conjI allI impI)
  assume "skip_pad a1 = []"
  then show "fst (radix64_read afx a sz) = RC_OK"
    by (simp add: radix64_read_pad [OF assms])
next
  fix c1 c2 c3 c4 x rest
  assume h: "skip_pad a1 = c1 # c2 # c3 # c4 # x # rest
           \<and> radix64_char c1 \<and> radix64_char c2 \<and> radix64_char c3 \<and> radix64_char c4"
  then have "crc_chars 0 c1 (c2 # c3 # c4 # x # rest) val 0
      = (False, 4, crc24_of_chars c1 c2 c3 c4, rest)"
    by (simp add: crc_chars_four)
  then show "fst (radix64_read afx a sz)
                 = (if crc24_of_chars c1 c2 c3 c4 = running_crc afx buf then RC_OK
                    else RC_ERR G10ERR_INVALID_ARMOR)"
    using h by (simp add: radix64_read_pad [OF assms] crc_bad_tuple)
next
  assume h: "skip_pad a1 \<noteq> []
          \<and> \<not> (\<exists>c1 c2 c3 c4 x rest.
                  skip_pad a1 = c1 # c2 # c3 # c4 # x # rest
                  \<and> radix64_char c1 \<and> radix64_char c2 \<and> radix64_char c3 \<and> radix64_char c4)"
  then obtain c a' where s: "skip_pad a1 = c # a'" by (cases "skip_pad a1") auto
  have "crc_bad (crc_chars 0 c a' val 0)"
    using h s by (simp add: crc_chars_0)
  then show "fst (radix64_read afx a sz) = RC_ERR G10ERR_INVALID_ARMOR"
    using s by (simp add: radix64_read_pad [OF assms])
qed

text \<open>
  C3 as it is stated fails on a missing tail: three zero bytes, their CRC, and the end
  of the input where the END line should be, are accepted.
\<close>

theorem radix64_no_tail_counterexample:
  "fst (radix64_read radix_afx (bytes_of ''AAAA'' @ [LF] @ bytes_of ''=Je8i'' @ [LF]) 100) = RC_OK"
  by code_simp

lemma radix_sample:
  "radix64_loop 100 (bytes_of ''AAAA'' @ [LF] @ bytes_of ''=Je8i'' @ [LF])
      (nat (idx radix_afx)) (radbuf0 radix_afx) [] = (True, 0, 0, [0, 0, 0], bytes_of ''Je8i'' @ [LF])"
  "radix64_loop 100 (bytes_of ''AAAA'' @ [LF] @ bytes_of ''=Je8'')
      (nat (idx radix_afx)) (radbuf0 radix_afx) [] = (True, 0, 0, [0, 0, 0], bytes_of ''Je8'')"
  "radix64_loop 100 (bytes_of ''AAAA'' @ [LF] @ bytes_of ''='' @ [LF])
      (nat (idx radix_afx)) (radbuf0 radix_afx) [] = (True, 0, 0, [0, 0, 0], [LF])"
  "skip_pad (bytes_of ''Je8i'' @ [LF]) = [0x4A, 0x65, 0x38, 0x69, LF]"
  "skip_pad (bytes_of ''Je8'') = [0x4A, 0x65, 0x38]"
  "skip_pad [LF] = []"
  "radix64_char 0x4A" "radix64_char 0x65" "radix64_char 0x38" "radix64_char 0x69"
  "crc24_of_chars 0x4A 0x65 0x38 0x69 = 0x25EF22"
  "running_crc radix_afx [0, 0, 0] = 0x25EF22"
  by code_simp+

theorem radix64_read_crc_check_witness:
  "radix64_loop 100 (bytes_of ''AAAA'' @ [LF] @ bytes_of ''=Je8i'' @ [LF])
      (nat (idx radix_afx)) (radbuf0 radix_afx) [] = (True, 0, 0, [0, 0, 0], bytes_of ''Je8i'' @ [LF])
   \<and> skip_pad (bytes_of ''Je8i'' @ [LF]) = [0x4A, 0x65, 0x38, 0x69, LF]
   \<and> radix64_char 0x4A \<and> radix64_char 0x65 \<and> radix64_char 0x38 \<and> radix64_char 0x69
   \<and> crc24_of_chars 0x4A 0x65 0x38 0x69 = running_crc radix_afx [0, 0, 0]
   \<and> fst (radix64_read radix_afx (bytes_of ''AAAA'' @ [LF] @ bytes_of ''=Je8i'' @ [LF]) 100) = RC_OK
   \<and> skip_pad (bytes_of ''Je8'') \<noteq> []
   \<and> fst (radix64_read radix_afx (bytes_of ''AAAA'' @ [LF] @ bytes_of ''=Je8'') 100)
       = RC_ERR G10ERR_INVALID_ARMOR
   \<and> skip_pad [LF] = []
   \<and> fst (radix64_read radix_afx (bytes_of ''AAAA'' @ [LF] @ bytes_of ''='' @ [LF]) 100) = RC_OK"
proof -
  have ne: "[0, 0, 0 :: byte] \<noteq> []" by simp
  note t1 = radix64_read_crc_check [OF radix_sample(1) ne]
  note t2 = radix64_read_crc_check [OF radix_sample(2) ne]
  note t3 = radix64_read_crc_check [OF radix_sample(3) ne]
  have a: "fst (radix64_read radix_afx (bytes_of ''AAAA'' @ [LF] @ bytes_of ''=Je8i'' @ [LF]) 100)
      = RC_OK"
    using t1 radix_sample(4,7-12) by simp
  have b: "fst (radix64_read radix_afx (bytes_of ''AAAA'' @ [LF] @ bytes_of ''=Je8'') 100)
       = RC_ERR G10ERR_INVALID_ARMOR"
    using t2 radix_sample(5) by simp
  have c: "fst (radix64_read radix_afx (bytes_of ''AAAA'' @ [LF] @ bytes_of ''='' @ [LF]) 100)
      = RC_OK"
    using t3 radix_sample(6) by simp
  show ?thesis using a b c radix_sample by simp
qed

section \<open>qualified.c: the lookup in the list\<close>

subsection \<open>Reading a line\<close>

lemma cstr_text: "0 \<notin> set l \<Longrightarrow> cstr l = l"
  by (simp add: cstr_def takeWhile_eq_all_conv) metis

lemma cstr_text_LF: "0 \<notin> set l \<Longrightarrow> cstr (l @ [LF]) = l @ [LF]"
  by (rule cstr_text) simp

lemma fgets_line:
  assumes "LF \<notin> set l"
  shows "fgets 254 (l @ LF # rest) =
    Some (if length l < 254 then (l @ [LF], rest) else (take 254 l, drop 254 l @ LF # rest))"
proof -
  have "takeWhile (\<lambda>c. c \<noteq> LF) (l @ LF # rest) = l"
    using assms by (subst takeWhile_append2) auto
  then show ?thesis by (simp add: fgets_def Let_def)
qed

lemma fgets_tail:
  assumes "LF \<notin> set t" "t \<noteq> []"
  shows "fgets 254 t = Some (take 254 t, drop 254 t)"
proof -
  have tw: "takeWhile (\<lambda>c. c \<noteq> LF) t = t"
    using assms by (simp add: takeWhile_eq_all_conv) metis
  show ?thesis using assms(2) unfolding fgets_def Let_def tw
    by (cases "length t \<le> 254") (simp_all add: min_def)
qed

lemma dropWhile_not_LF:
  "LF \<notin> set l \<Longrightarrow> dropWhile (\<lambda>c. c \<noteq> LF) (l @ r) = dropWhile (\<lambda>c. c \<noteq> LF) r"
  by (induction l) simp_all

lemma eat_line_LF: "LF \<notin> set l \<Longrightarrow> eat_line (l @ LF # rest) = rest"
  by (simp add: eat_line_def dropWhile_not_LF)

lemma eat_line_tail: "LF \<notin> set l \<Longrightarrow> eat_line l = []"
proof -
  assume "LF \<notin> set l"
  then have "dropWhile (\<lambda>c. c \<noteq> LF) (l @ []) = dropWhile (\<lambda>c. c \<noteq> LF) []"
    by (rule dropWhile_not_LF)
  then have dw: "dropWhile (\<lambda>c. c \<noteq> LF) l = []" by simp
  show ?thesis unfolding eat_line_def dw by simp
qed

lemma dropWhile_spacep_LF: "dropWhile spacep (l @ [LF]) = dropWhile spacep l @ [LF]"
  by (induction l) (simp_all add: spacep_def)

lemma read_list_line_eof: "read_list_line [] = (Inl GPG_ERR_EOF, [])"
  by (subst read_list_line.simps) (simp add: fgets_def)

lemma read_list_line_tail:
  assumes "text_line t" "t \<noteq> []"
  shows "read_list_line t = (Inl GPG_ERR_LINE_TOO_LONG, [])"
proof -
  have nl: "LF \<notin> set t" and nz: "0 \<notin> set t" using assms by (simp_all add: text_line_def)
  have f: "fgets 254 t = Some (take 254 t, drop 254 t)" by (rule fgets_tail [OF nl assms(2)])
  have "0 \<notin> set (take 254 t)" using nz by (auto dest: in_set_takeD)
  then have c: "cstr (take 254 t) = take 254 t" by (rule cstr_text)
  have ne: "take 254 t \<noteq> []" using assms(2) by simp
  then have "last (take 254 t) \<in> set (take 254 t)" by (rule last_in_set)
  then have "last (take 254 t) \<in> set t" by (rule in_set_takeD)
  then have l: "last (take 254 t) \<noteq> LF" using nl by auto
  have "LF \<notin> set (drop 254 t)" using nl by (auto dest: in_set_dropD)
  then have e: "eat_line (drop 254 t) = []" by (rule eat_line_tail)
  show ?thesis using ne l by (subst read_list_line.simps) (simp add: f c e)
qed

lemma read_list_line_overlong:
  assumes "text_line l" "254 \<le> length l"
  shows "read_list_line (l @ LF # rest) = (Inl GPG_ERR_LINE_TOO_LONG, rest)"
proof -
  have nl: "LF \<notin> set l" and nz: "0 \<notin> set l" using assms by (simp_all add: text_line_def)
  have f: "fgets 254 (l @ LF # rest) = Some (take 254 l, drop 254 l @ LF # rest)"
    using fgets_line [OF nl, of rest] assms(2) by simp
  have "0 \<notin> set (take 254 l)" using nz by (auto dest: in_set_takeD)
  then have c: "cstr (take 254 l) = take 254 l" by (rule cstr_text)
  have ne: "take 254 l \<noteq> []" using assms(2) by auto
  then have "last (take 254 l) \<in> set (take 254 l)" by (rule last_in_set)
  then have "last (take 254 l) \<in> set l" by (rule in_set_takeD)
  then have l: "last (take 254 l) \<noteq> LF" using nl by auto
  have "LF \<notin> set (drop 254 l)" using nl by (auto dest: in_set_dropD)
  then have e: "eat_line (drop 254 l @ LF # rest) = rest" by (rule eat_line_LF)
  show ?thesis using ne l by (subst read_list_line.simps) (simp add: f c e)
qed

lemma read_list_line_short:
  assumes "text_line l" "length l < 254"
  shows "read_list_line (l @ LF # rest) =
    (let p = dropWhile spacep l in
     if p = [] \<or> hd p = 0x23 then read_list_line rest else (Inr (p @ [LF]), rest))"
proof -
  have nl: "LF \<notin> set l" and nz: "0 \<notin> set l" using assms by (simp_all add: text_line_def)
  have f: "fgets 254 (l @ LF # rest) = Some (l @ [LF], rest)"
    using fgets_line [OF nl, of rest] assms(2) by simp
  have c: "cstr (l @ [LF]) = l @ [LF]" by (rule cstr_text_LF [OF nz])
  let ?p = "dropWhile spacep l"
  have r: "read_list_line (l @ LF # rest) =
      (if hd (?p @ [LF]) = LF \<or> hd (?p @ [LF]) = 0x23 then read_list_line rest
       else (Inr (?p @ [LF]), rest))"
    by (subst read_list_line.simps) (simp add: f c dropWhile_spacep_LF Let_def)
  show ?thesis
  proof (cases "?p = []")
    case True
    show ?thesis unfolding r Let_def True by simp
  next
    case False
    then have "hd ?p \<in> set ?p" by (rule hd_in_set)
    then have "hd ?p \<in> set l" by (rule set_dropWhileD)
    then have "hd ?p \<noteq> LF" using nl by auto
    then show ?thesis using False unfolding r Let_def by (auto simp add: hd_append)
  qed
qed


subsection \<open>Reading an entry\<close>

lemma hex_lower_cases:
  assumes "0x61 \<le> c" "c \<le> (0x66 :: byte)"
  shows "c = 0x61 \<or> c = 0x62 \<or> c = 0x63 \<or> c = 0x64 \<or> c = 0x65 \<or> c = 0x66"
proof -
  have "97 \<le> unat c \<and> unat c \<le> 102" using assms by (simp add: word_le_nat_alt)
  then have "unat c = 97 \<or> unat c = 98 \<or> unat c = 99 \<or> unat c = 100 \<or> unat c = 101
      \<or> unat c = 102" by arith
  then show ?thesis by (simp add: word_unat_eq_iff)
qed

lemma hexdigit_upcase:
  assumes "hexdigitp c"
  shows "(if 0x61 \<le> c then c AND 0xdf else c) = upcase c"
proof (cases "0x61 \<le> c")
  case True
  then have "c \<le> 0x66" using assms by (auto simp: hexdigitp_def word_le_nat_alt)
  from hex_lower_cases [OF True this] show ?thesis
    by (auto simp: upcase_def lowerp_def)
next
  case False
  then show ?thesis by (simp add: upcase_def lowerp_def)
qed

lemma fpr_char_not_blank: "fpr_char c \<Longrightarrow> \<not> spacep c \<and> c \<noteq> LF \<and> c \<noteq> 0"
  by (auto simp: fpr_char_def spacep_def hexdigitp_def)

lemma read_list_key_stop:
  "r \<noteq> [] \<Longrightarrow> \<not> fpr_char (hd r) \<Longrightarrow> read_list_key r key = (key, r)"
  by (cases r) (simp_all add: fpr_char_def)

lemma read_list_key_run:
  assumes "\<forall>c\<in>set fp. fpr_char c" "r \<noteq> []" "\<not> fpr_char (hd r)" "length key \<le> 40"
  shows "if length key + length (fingerprint_of fp) < 40
            \<or> (length key + length (fingerprint_of fp) = 40 \<and> (fp = [] \<or> last fp \<noteq> COLON))
         then read_list_key (fp @ r) key = (key @ fingerprint_of fp, r)
         else snd (read_list_key (fp @ r) key) \<noteq> []
              \<and> fpr_char (hd (snd (read_list_key (fp @ r) key)))"
  using assms
proof (induction fp arbitrary: key)
  case Nil
  then show ?case by (simp add: read_list_key_stop fingerprint_of_def)
next
  case (Cons c fp)
  have pc: "fpr_char c" using Cons.prems(1) by simp
  show ?case
  proof (cases "length key < 40")
    case False
    then have k: "length key = 40" using Cons.prems(4) by simp
    have stop: "read_list_key ((c # fp) @ r) key = (key, c # fp @ r)" using False by simp
    have "last (c # fp) = COLON" if "fingerprint_of (c # fp) = []"
    proof -
      have "filter (\<lambda>c. c \<noteq> COLON) (c # fp) = []" using that
        unfolding fingerprint_of_def by (simp only: map_is_Nil_conv)
      then have "\<forall>x\<in>set (c # fp). x = COLON"
        unfolding filter_empty_conv by blast
      moreover have "last (c # fp) \<in> set (c # fp)" by (rule last_in_set) simp
      ultimately show ?thesis by blast
    qed
    then show ?thesis unfolding stop using k pc by auto
  next
    case True
    let ?key = "if c \<noteq> COLON then key @ [upcase c] else key"
    have up: "c \<noteq> COLON \<Longrightarrow> (if 0x61 \<le> c then c AND 0xdf else c) = upcase c"
      using pc hexdigit_upcase [of c] by (simp add: fpr_char_def)
    have step: "read_list_key ((c # fp) @ r) key = read_list_key (fp @ r) ?key"
      using True pc up by (simp add: fpr_char_def)
    have len: "length ?key \<le> 40" using True by simp
    have all: "\<forall>c\<in>set fp. fpr_char c" using Cons.prems(1) by simp
    note ih = Cons.IH [OF all Cons.prems(2,3) len]
    have n: "length ?key + length (fingerprint_of fp) = length key + length (fingerprint_of (c # fp))"
      by (simp add: fingerprint_of_def)
    have app: "?key @ fingerprint_of fp = key @ fingerprint_of (c # fp)"
      by (simp add: fingerprint_of_def)
    show ?thesis
    proof (cases "fp = []")
      case e: True
      have "read_list_key (fp @ r) ?key = (?key @ fingerprint_of fp, r)"
        using ih len unfolding e by (simp add: fingerprint_of_def split: if_splits)
      moreover have "length key + length (fingerprint_of (c # fp)) < 40
            \<or> (length key + length (fingerprint_of (c # fp)) = 40 \<and> last (c # fp) \<noteq> COLON)"
        using True unfolding e by (auto simp: fingerprint_of_def)
      ultimately show ?thesis unfolding step app by simp
    next
      case ne: False
      then have "last (c # fp) = last fp" by simp
      then show ?thesis using ih ne unfolding step n app by simp
    qed
  qed
qed

lemma country_code_char_at:
  assumes "LF \<notin> set q"
  shows "(0x61 \<le> char_at (q @ [LF]) 0 \<and> char_at (q @ [LF]) 0 \<le> 0x7A
           \<and> 0x61 \<le> char_at (q @ [LF]) 1 \<and> char_at (q @ [LF]) 1 \<le> 0x7A
           \<and> (spacep (char_at (q @ [LF]) 2) \<or> char_at (q @ [LF]) 2 = LF))
         \<longleftrightarrow> country_code q"
proof (cases q)
  case Nil
  then show ?thesis by (simp add: char_at_def)
next
  case q1: (Cons c1 t1)
  show ?thesis
  proof (cases t1)
    case Nil
    then show ?thesis using q1 by (simp add: char_at_def)
  next
    case q2: (Cons c2 t2)
    show ?thesis
    proof (cases t2)
      case Nil
      then show ?thesis using q1 q2 by (simp add: char_at_def lowerp_def)
    next
      case (Cons c3 t3)
      then show ?thesis using q1 q2 assms by (auto simp add: char_at_def lowerp_def)
    qed
  qed
qed


lemma char_at_0: "r \<noteq> [] \<Longrightarrow> char_at r 0 = hd r"
  by (cases r) (simp_all add: char_at_def)

lemma read_list_key_length:
  "length key \<le> 40 \<Longrightarrow> length (fst (read_list_key p key)) \<le> 40"
  by (induction p key rule: read_list_key.induct) auto

lemma read_list_entry_line:
  assumes "LF \<notin> set p" "40 < ks"
  defines "fp \<equiv> takeWhile fpr_char p"
  defines "r \<equiv> drop (length fp) p"
  defines "ok \<equiv> length (fingerprint_of fp) = 40 \<and> last fp \<noteq> COLON
                 \<and> r \<noteq> [] \<and> spacep (hd r) \<and> country_code (dropWhile spacep r)"
  shows "if ok then
           (if cs < 3 then read_list_entry ks cs (p @ [LF]) = Inl BufferOverflow
            else \<exists>country. read_list_entry ks cs (p @ [LF])
                   = Inr (GPG_ERR_NO_ERROR, fingerprint_of fp, country))
         else \<exists>key. read_list_entry ks cs (p @ [LF]) = Inr (GPG_ERR_BAD_DATA, key, [])"
proof -
  have r: "r = dropWhile fpr_char p" unfolding r_def fp_def by (simp add: dropWhile_eq_drop)
  have split: "p @ [LF] = fp @ (r @ [LF])" unfolding r fp_def by simp
  have all: "\<forall>c\<in>set fp. fpr_char c" unfolding fp_def by (auto dest: set_takeWhileD)
  have ne: "r @ [LF] \<noteq> []" by simp
  have hdr: "r \<noteq> [] \<Longrightarrow> \<not> fpr_char (hd r)" unfolding r by (rule hd_dropWhile)
  have nf: "\<not> fpr_char (hd (r @ [LF]))"
    using hdr by (cases "r = []") (simp_all add: fpr_char_def hexdigitp_def)
  note run = read_list_key_run [OF all ne nf, of "[]", unfolded split [symmetric], simplified]
  have rsub: "set r \<subseteq> set p" unfolding r_def by (rule set_drop_subset)
  obtain k r2 where k: "read_list_key (p @ [LF]) [] = (k, r2)"
    by (cases "read_list_key (p @ [LF]) []") auto
  have "length (fst (read_list_key (p @ [LF]) [])) \<le> 40" by (rule read_list_key_length) simp
  then have kl: "\<not> ks \<le> length k" using assms(2) k by simp
  show ?thesis
  proof (cases "length (fingerprint_of fp) = 40 \<and> last fp \<noteq> COLON")
    case True
    then have key: "k = fingerprint_of fp" "r2 = r @ [LF]"
      using run k by simp_all
    show ?thesis
    proof (cases "r = []")
      case e: True
      have "read_list_entry ks cs (p @ [LF]) = Inr (GPG_ERR_BAD_DATA, k, [])"
        unfolding read_list_entry_def k using kl key e by (simp add: char_at_def)
      then show ?thesis unfolding ok_def e by simp
    next
      case False
      then have c0: "char_at (r @ [LF]) 0 = hd r" by (simp add: char_at_0 hd_append)
      have "hd r \<in> set p" using False rsub hd_in_set [of r] by auto
      then have nl: "hd r \<noteq> LF" using assms(1) by auto
      show ?thesis
      proof (cases "spacep (hd r)")
        case sp: True
        have tlr: "tl (r @ [LF]) = tl r @ [LF]" using False by simp
        have dw: "dropWhile spacep r = dropWhile spacep (tl r)"
          using False sp by (cases r) simp_all
        have "set (dropWhile spacep (tl r)) \<subseteq> set p"
          using rsub False by (auto dest!: set_dropWhileD list.set_sel(2))
        then have "LF \<notin> set (dropWhile spacep (tl r))" using assms(1) by auto
        note cc = country_code_char_at [OF this]
        show ?thesis
          unfolding read_list_entry_def k ok_def dw
          using True False sp cc kl key by (simp add: c0 tlr dropWhile_spacep_LF Let_def)
      next
        case nsp: False
        have "read_list_entry ks cs (p @ [LF]) = Inr (GPG_ERR_BAD_DATA, k, [])"
          unfolding read_list_entry_def k using nsp nl kl key by (simp add: c0)
        then show ?thesis unfolding ok_def using nsp by simp
      qed
    qed
  next
    case False
    have "read_list_entry ks cs (p @ [LF]) = Inr (GPG_ERR_BAD_DATA, k, [])"
    proof (cases "length (fingerprint_of fp) < 40")
      case True
      then have key: "k = fingerprint_of fp" using run k by simp
      show ?thesis unfolding read_list_entry_def k using True kl key by simp
    next
      case ge: False
      have "fp \<noteq> []" using ge by (auto simp: fingerprint_of_def)
      then have st: "snd (read_list_key (p @ [LF]) []) \<noteq> []
          \<and> fpr_char (hd (snd (read_list_key (p @ [LF]) [])))"
        using run ge False by (simp split: if_splits)
      then have "r2 \<noteq> []" "fpr_char (hd r2)" using k by simp_all
      then have "\<not> spacep (char_at r2 0)" "char_at r2 0 \<noteq> LF"
        using fpr_char_not_blank [of "hd r2"] by (simp_all add: char_at_0)
      then show ?thesis unfolding read_list_entry_def k using kl by simp
    qed
    then show ?thesis unfolding ok_def using False by auto
  qed
qed

subsection \<open>The loop over the list\<close>

lemma text_file_Cons: "text_file (l # ls) tail = l @ LF # text_file ls tail"
  by (simp add: text_file_def)

lemma text_file_Nil: "text_file [] tail = tail"
  by (simp add: text_file_def)

lemma read_list_open_line:
  assumes "listfp st = Some (l @ LF # rest)" "text_line l"
  shows "case line_kind l of
           Overlong \<Rightarrow> read_list_open 41 2 st
              = Inr (GPG_ERR_LINE_TOO_LONG, [], [], st\<lparr>listfp := Some rest\<rparr>)
         | Blank \<Rightarrow> read_list_open 41 2 st = read_list_open 41 2 (st\<lparr>listfp := Some rest\<rparr>)
         | Malformed \<Rightarrow> (\<exists>key. read_list_open 41 2 st
              = Inr (GPG_ERR_BAD_DATA, key, [], st\<lparr>listfp := Some rest\<rparr>))
         | Entry k \<Rightarrow> read_list_open 41 2 st = Inl BufferOverflow"
proof (cases "254 \<le> length l")
  case True
  then have "line_kind l = Overlong" by (simp add: line_kind_def)
  then show ?thesis
    using read_list_line_overlong [OF assms(2) True, of rest] assms(1)
    by (simp add: read_list_open_def)
next
  case False
  then have short: "length l < 254" by simp
  let ?p = "dropWhile spacep l"
  note rl = read_list_line_short [OF assms(2) short, of rest, unfolded Let_def]
  show ?thesis
  proof (cases "?p = [] \<or> hd ?p = 0x23")
    case True
    then have "line_kind l = Blank" using False by (simp add: line_kind_def)
    moreover have "read_list_line (l @ LF # rest) = read_list_line rest" using rl True by simp
    ultimately show ?thesis using assms(1)
      by (simp add: read_list_open_def split: prod.splits sum.splits)
  next
    case entry: False
    then have line: "read_list_line (l @ LF # rest) = (Inr (?p @ [LF]), rest)"
      unfolding rl by (simp only: if_False)
    have "LF \<notin> set l" using assms(2) by (simp add: text_line_def)
    then have "LF \<notin> set ?p" by (auto dest: set_dropWhileD)
    note e = read_list_entry_line [OF this, of 41 2]
    let ?fp = "takeWhile fpr_char ?p"
    let ?r = "drop (length ?fp) ?p"
    have ro: "read_list_open 41 2 st =
        (case read_list_entry 41 2 (?p @ [LF]) of
           Inl f \<Rightarrow> Inl f
         | Inr (err, key, country) \<Rightarrow> Inr (err, key, country, st\<lparr>listfp := Some rest\<rparr>))"
      using assms(1) line by (simp add: read_list_open_def)
    show ?thesis
    proof (cases "length (fingerprint_of ?fp) = 40 \<and> last ?fp \<noteq> COLON
                 \<and> ?r \<noteq> [] \<and> spacep (hd ?r) \<and> country_code (dropWhile spacep ?r)")
      case True
      then have "line_kind l = Entry (fingerprint_of ?fp)"
        using False entry unfolding line_kind_def Let_def by simp
      moreover have "read_list_entry 41 2 (?p @ [LF]) = Inl BufferOverflow"
        using e True by (auto split: if_splits)
      ultimately show ?thesis unfolding ro by simp
    next
      case bad: False
      then have "line_kind l = Malformed"
        using False entry unfolding line_kind_def Let_def by simp
      moreover have "\<exists>key. read_list_entry 41 2 (?p @ [LF]) = Inr (GPG_ERR_BAD_DATA, key, [])"
        using e bad by (auto split: if_splits)
      ultimately show ?thesis unfolding ro by auto
    qed
  qed
qed

lemma read_list_opened: "listname st \<Longrightarrow> read_list 41 2 fo st = read_list_open 41 2 st"
  by (simp add: read_list_def)

lemma qualified_loop_line:
  assumes "listname st" "listfp st = Some (l @ LF # rest)" "text_line l"
  shows "qualified_loop fo st f =
    (case line_kind l of
       Overlong \<Rightarrow> Inr (GPG_ERR_LINE_TOO_LONG, st\<lparr>listfp := Some rest\<rparr>)
     | Blank \<Rightarrow> qualified_loop fo (st\<lparr>listfp := Some rest\<rparr>) f
     | Malformed \<Rightarrow> Inr (GPG_ERR_BAD_DATA, st\<lparr>listfp := Some rest\<rparr>)
     | Entry k \<Rightarrow> Inl BufferOverflow)"
proof -
  note ro = read_list_open_line [OF assms(2,3)]
  note rd = read_list_opened [OF assms(1), of fo]
  have "listname (st\<lparr>listfp := Some rest\<rparr>)" using assms(1) by simp
  note rd2 = read_list_opened [OF this, of fo]
  show ?thesis
  proof (cases "line_kind l")
    case Overlong
    then show ?thesis using ro
      by (subst qualified_loop.simps) (simp add: rd)
  next
    case Blank
    then have "read_list 41 2 fo st = read_list 41 2 fo (st\<lparr>listfp := Some rest\<rparr>)"
      using ro rd rd2 by simp
    then have "qualified_loop fo st f = qualified_loop fo (st\<lparr>listfp := Some rest\<rparr>) f"
      by (subst qualified_loop.simps, subst (2) qualified_loop.simps) simp
    then show ?thesis using Blank by simp
  next
    case (Entry k)
    then show ?thesis using ro
      by (subst qualified_loop.simps) (simp add: rd)
  next
    case Malformed
    then show ?thesis using ro
      by (subst qualified_loop.simps) (auto simp add: rd)
  qed
qed

lemma qualified_loop_end:
  assumes "listname st" "listfp st = Some tail" "text_line tail"
  shows "qualified_loop fo st f =
    Inr (if tail = [] then GPG_ERR_EOF else GPG_ERR_LINE_TOO_LONG, st\<lparr>listfp := Some []\<rparr>)"
proof -
  note rd = read_list_opened [OF assms(1), of fo]
  show ?thesis
  proof (cases "tail = []")
    case True
    then show ?thesis using assms(2)
      by (subst qualified_loop.simps) (simp add: rd read_list_open_def read_list_line_eof)
  next
    case False
    then show ?thesis using assms(2) read_list_line_tail [OF assms(3) False]
      by (subst qualified_loop.simps) (simp add: rd read_list_open_def)
  qed
qed

text \<open>The return value: the code that gpgsm_is_in_qualified_list makes of the loop's.\<close>

lemma qualified_loop_lines:
  assumes "\<forall>l\<in>set ls. text_line l" "text_line tail"
    "listname st" "listfp st = Some (text_file ls tail)"
  shows "map_sum (\<lambda>x. x) (\<lambda>r. if fst r = GPG_ERR_EOF then GPG_ERR_NOT_FOUND else fst r)
           (qualified_loop fo st f) = lookup_lines (map line_kind ls) tail
       \<and> (\<forall>err st'. qualified_loop fo st f = Inr (err, st') \<longrightarrow>
           listname st' \<and> listfile st' = listfile st \<and> listfp st' \<noteq> None)"
  using assms
proof (induction ls arbitrary: st)
  case Nil
  have "qualified_loop fo st f =
    Inr (if tail = [] then GPG_ERR_EOF else GPG_ERR_LINE_TOO_LONG, st\<lparr>listfp := Some []\<rparr>)"
    using Nil by (intro qualified_loop_end) (simp_all add: text_file_Nil)
  then show ?case using Nil(3) by simp
next
  case (Cons l ls)
  let ?st = "st\<lparr>listfp := Some (text_file ls tail)\<rparr>"
  let ?code = "map_sum (\<lambda>x. x) (\<lambda>r. if fst r = GPG_ERR_EOF then GPG_ERR_NOT_FOUND else fst r)"
  have fp: "listfp st = Some (l @ LF # text_file ls tail)"
    using Cons.prems(4) by (simp add: text_file_Cons)
  have tl: "text_line l" using Cons.prems(1) by simp
  note step = qualified_loop_line [OF Cons.prems(3) fp tl, of fo f]
  have "?code (qualified_loop fo ?st f) = lookup_lines (map line_kind ls) tail
       \<and> (\<forall>err st'. qualified_loop fo ?st f = Inr (err, st') \<longrightarrow>
           listname st' \<and> listfile st' = listfile ?st \<and> listfp st' \<noteq> None)"
    using Cons.prems by (intro Cons.IH) simp_all
  then have ih1: "?code (qualified_loop fo ?st f) = lookup_lines (map line_kind ls) tail"
    and ih2: "\<And>err st'. qualified_loop fo ?st f = Inr (err, st') \<Longrightarrow>
           listname st' \<and> listfile st' = listfile st \<and> listfp st' \<noteq> None"
    by simp_all
  show ?case
  proof (cases "line_kind l")
    case Overlong
    have "qualified_loop fo st f = Inr (GPG_ERR_LINE_TOO_LONG, ?st)"
      unfolding step Overlong by simp
    then show ?thesis using Overlong Cons.prems(3) by simp
  next
    case Blank
    have "qualified_loop fo st f = qualified_loop fo ?st f"
      unfolding step Blank by simp
    then show ?thesis using Blank ih1 ih2 by simp
  next
    case (Entry k)
    have "qualified_loop fo st f = Inl BufferOverflow"
      unfolding step Entry by simp
    then show ?thesis using Entry by simp
  next
    case Malformed
    have "qualified_loop fo st f = Inr (GPG_ERR_BAD_DATA, ?st)"
      unfolding step Malformed by simp
    then show ?thesis using Malformed Cons.prems(3) by simp
  qed
qed

lemma read_list_never_0:
  "read_list 41 2 fo st \<noteq> Inr (GPG_ERR_NO_ERROR, key, country, st')"
proof -
  have e: "read_list_entry 41 2 p \<noteq> Inr (GPG_ERR_NO_ERROR, key, country)" for p
    by (simp add: read_list_entry_def Let_def split: prod.splits)
  have "read_list_open 41 2 s \<noteq> Inr (GPG_ERR_NO_ERROR, key, country, st')" for s
  proof (cases "listfp s")
    case None
    then show ?thesis by (simp add: read_list_open_def)
  next
    case (Some x)
    obtain r rest where rl: "read_list_line x = (r, rest)" by (cases "read_list_line x") auto
    from read_list_line_rest [OF rl] have "r \<noteq> Inl GPG_ERR_NO_ERROR" by simp
    then show ?thesis using Some rl e
      by (auto simp: read_list_open_def split: sum.splits prod.splits)
  qed
  then show ?thesis by (auto simp: read_list_def split: fopen_result.splits)
qed

lemma qualified_loop_never_0: "qualified_loop fo st f \<noteq> Inr (GPG_ERR_NO_ERROR, st')"
  using read_list_never_0 [of fo st]
  by (subst qualified_loop.simps) (auto split: sum.splits prod.splits)

lemma gpgsm_is_in_qualified_list_never_0:
  "gpgsm_is_in_qualified_list fo st fpr \<noteq> Inr (GPG_ERR_NO_ERROR, st')"
  using qualified_loop_never_0 [of fo _ _ st']
  by (auto simp: gpgsm_is_in_qualified_list_def Let_def split: option.splits sum.splits prod.splits)

lemma qualified_loop_fresh:
  "qualified_loop (Opened file) list_state_init f =
   qualified_loop (Opened file) \<lparr>listname = True, listfile = file, listfp = Some file\<rparr> f"
  by (subst qualified_loop.simps, subst (2) qualified_loop.simps)
     (simp add: read_list_def list_state_init_def)

lemma gpgsm_is_in_qualified_list_lines:
  assumes "\<forall>l\<in>set ls. text_line l" "text_line tail"
    "st = list_state_init \<or> list_opened (text_file ls tail) st"
  shows "map_sum (\<lambda>x. x) fst (gpgsm_is_in_qualified_list (Opened (text_file ls tail)) st (Some fpr))
           = lookup_lines (map line_kind ls) tail"
    and "\<forall>err st'. gpgsm_is_in_qualified_list (Opened (text_file ls tail)) st (Some fpr)
             = Inr (err, st') \<longrightarrow> list_opened (text_file ls tail) st'"
proof -
  let ?file = "text_file ls tail"
  let ?st = "\<lparr>listname = True, listfile = ?file, listfp = Some ?file\<rparr>"
  let ?st1 = "case listfp st of None \<Rightarrow> st | Some x \<Rightarrow> st\<lparr>listfp := Some (listfile st)\<rparr>"
  have "\<exists>st2. qualified_loop (Opened ?file) ?st1 (cstr fpr) = qualified_loop (Opened ?file) st2 (cstr fpr)
      \<and> listname st2 \<and> listfile st2 = ?file \<and> listfp st2 = Some ?file"
    using assms(3)
  proof
    assume "st = list_state_init"
    then have "qualified_loop (Opened ?file) ?st1 (cstr fpr) = qualified_loop (Opened ?file) ?st (cstr fpr)"
      using qualified_loop_fresh [of ?file "cstr fpr"] by (simp add: list_state_init_def)
    then show ?thesis by (intro exI [of _ ?st]) simp
  next
    assume "list_opened ?file st"
    then have "?st1 = st\<lparr>listfp := Some ?file\<rparr>" "listname st" "listfile st = ?file"
      by (auto simp: list_opened_def)
    then show ?thesis by (intro exI [of _ "st\<lparr>listfp := Some ?file\<rparr>"]) simp
  qed
  then obtain st2 where eq: "qualified_loop (Opened ?file) ?st1 (cstr fpr)
        = qualified_loop (Opened ?file) st2 (cstr fpr)"
    and st2: "listname st2" "listfile st2 = ?file" "listfp st2 = Some ?file" by blast
  note ql0 = qualified_loop_lines [OF assms(1,2) st2(1,3), of "Opened ?file" "cstr fpr"]
  note ql = ql0 [THEN conjunct1] ql0 [THEN conjunct2]
  have g: "gpgsm_is_in_qualified_list (Opened ?file) st (Some fpr) =
      (case qualified_loop (Opened ?file) st2 (cstr fpr) of
         Inl x \<Rightarrow> Inl x
       | Inr (err, s) \<Rightarrow> Inr (if err = GPG_ERR_EOF then GPG_ERR_NOT_FOUND else err, s))"
    using eq by (simp add: gpgsm_is_in_qualified_list_def Let_def)
  show "map_sum (\<lambda>x. x) fst (gpgsm_is_in_qualified_list (Opened ?file) st (Some fpr))
           = lookup_lines (map line_kind ls) tail"
    unfolding g ql(1) [symmetric]
    by (cases "qualified_loop (Opened ?file) st2 (cstr fpr)") (auto split: prod.splits)
  show "\<forall>err st'. gpgsm_is_in_qualified_list (Opened ?file) st (Some fpr) = Inr (err, st')
      \<longrightarrow> list_opened ?file st'"
    unfolding g list_opened_def using ql(2) st2(2)
    by (cases "qualified_loop (Opened ?file) st2 (cstr fpr)") (auto split: prod.splits)
qed

lemma gpgsm_is_in_qualified_list_no_file:
  "map_sum (\<lambda>x. x) fst (gpgsm_is_in_qualified_list Enoent list_state_init (Some fpr))
     = Inr GPG_ERR_NOT_FOUND"
  unfolding gpgsm_is_in_qualified_list_def Let_def
  by (subst qualified_loop.simps)
     (simp add: list_state_init_def read_list_def read_list_open_def)

lemma gpgsm_is_in_qualified_list_no_fpr:
  "gpgsm_is_in_qualified_list fo st None = Inr (GPG_ERR_GENERAL, st)"
  by (simp add: gpgsm_is_in_qualified_list_def)

lemma sample_kinds:
  "text_line (bytes_of ''# qualified certificates'')" "text_line []" "text_line sample_entry"
  "line_kind (bytes_of ''# qualified certificates'') = Blank"
  "line_kind [] = Blank"
  "line_kind sample_entry = Entry sample_fpr"
  "cstr sample_fpr = sample_fpr"
  by (simp_all add: text_line_def line_kind_def sample_entry_def sample_fpr_def bytes_of_def
        spacep_def fpr_char_def hexdigitp_def fingerprint_of_def upcase_def lowerp_def cstr_def)

subsection \<open>The result of the lookup\<close>

text \<open>
  C10, where the code departs from it. read_list asks for a country buffer of at least
  three characters and stores \<open>country[2] = 0\<close> for every well-formed entry, but
  gpgsm_is_in_qualified_list passes \<open>char country[2]\<close>. So for a list that is a text
  file without NUL bytes, read from the first call or after an earlier one, the lookup
  goes through the lines in their order and the first line that decides gives the
  result: a line of 254 bytes or more before its newline gives GPG_ERR_LINE_TOO_LONG, and
  so do bytes behind the last newline; a line that is neither blank, a comment nor a
  well-formed entry gives GPG_ERR_BAD_DATA; the end of the file gives
  GPG_ERR_NOT_FOUND; and the first well-formed entry, whether its fingerprint is the one
  looked for or not, is a store behind the end of the buffer. In no case is 0 the
  defined result. A call that returns leaves the list open for the next one.
\<close>

theorem qualified_list_country_overflow:
  assumes "\<forall>l\<in>set ls. text_line l" and "text_line tail"
    and "st = list_state_init \<or> list_opened (text_file ls tail) st"
  shows "map_sum (\<lambda>x. x) fst (gpgsm_is_in_qualified_list (Opened (text_file ls tail)) st (Some fpr))
           = lookup_lines (map line_kind ls) tail
       \<and> (\<forall>st'. gpgsm_is_in_qualified_list (Opened (text_file ls tail)) st (Some fpr)
             \<noteq> Inr (GPG_ERR_NO_ERROR, st'))
       \<and> (\<forall>err st'. gpgsm_is_in_qualified_list (Opened (text_file ls tail)) st (Some fpr)
             = Inr (err, st') \<longrightarrow> list_opened (text_file ls tail) st')"
  using gpgsm_is_in_qualified_list_lines [OF assms, of fpr]
    gpgsm_is_in_qualified_list_never_0 [of "Opened (text_file ls tail)" st "Some fpr"]
  by simp

theorem qualified_list_country_overflow_witness:
  "gpgsm_is_in_qualified_list (Opened (text_file sample_list [])) list_state_init
         (Some sample_fpr) = Inl BufferOverflow
   \<and> line_kind sample_entry = Entry (cstr sample_fpr)"
proof -
  have a: "\<forall>l\<in>set sample_list. text_line l" by (simp add: sample_list_def sample_kinds)
  have b: "text_line []" by (simp add: text_line_def)
  have c: "list_state_init = list_state_init \<or> list_opened (text_file sample_list []) list_state_init"
    by simp
  from qualified_list_country_overflow [OF a b c, of sample_fpr]
  have "map_sum (\<lambda>x. x) fst (gpgsm_is_in_qualified_list (Opened (text_file sample_list []))
      list_state_init (Some sample_fpr)) = Inl BufferOverflow"
    by (simp add: sample_list_def sample_kinds)
  then show ?thesis
    by (cases "gpgsm_is_in_qualified_list (Opened (text_file sample_list []))
      list_state_init (Some sample_fpr)") (simp_all add: sample_kinds)
qed

text \<open>
  The lines that are no entries: a last line \<open>abc\<close> that no newline ends gives
  GPG_ERR_LINE_TOO_LONG, and a malformed line gives GPG_ERR_BAD_DATA before the entry
  behind it is read.
\<close>

lemma qualified_list_first_error:
  "map_sum (\<lambda>x. x) fst (gpgsm_is_in_qualified_list (Opened (bytes_of ''abc'')) list_state_init
      (Some sample_fpr)) = Inr GPG_ERR_LINE_TOO_LONG
   \<and> map_sum (\<lambda>x. x) fst (gpgsm_is_in_qualified_list
        (Opened (bytes_of ''xyz'' @ [LF] @ sample_entry @ [LF])) list_state_init
        (Some sample_fpr)) = Inr GPG_ERR_BAD_DATA"
proof -
  have t: "text_line (bytes_of ''abc'')" "text_line (bytes_of ''xyz'')" "text_line []"
    and k: "line_kind (bytes_of ''xyz'') = Malformed" and n: "bytes_of ''abc'' \<noteq> []"
    by (simp_all add: text_line_def line_kind_def bytes_of_def spacep_def fpr_char_def
          hexdigitp_def fingerprint_of_def)
  have f1: "bytes_of ''abc'' = text_file [] (bytes_of ''abc'')" by (simp add: text_file_def)
  have f2: "bytes_of ''xyz'' @ [LF] @ sample_entry @ [LF]
      = text_file [bytes_of ''xyz'', sample_entry] []" by (simp add: text_file_def)
  have "map_sum (\<lambda>x. x) fst (gpgsm_is_in_qualified_list (Opened (text_file [] (bytes_of ''abc'')))
      list_state_init (Some sample_fpr)) = Inr GPG_ERR_LINE_TOO_LONG"
    using n by (subst gpgsm_is_in_qualified_list_lines(1)) (simp_all add: t)
  moreover have "map_sum (\<lambda>x. x) fst (gpgsm_is_in_qualified_list
      (Opened (text_file [bytes_of ''xyz'', sample_entry] [])) list_state_init
      (Some sample_fpr)) = Inr GPG_ERR_BAD_DATA"
    by (subst gpgsm_is_in_qualified_list_lines(1)) (simp_all add: t k sample_kinds)
  ultimately show ?thesis unfolding f1 [symmetric] f2 [symmetric] by simp
qed

end
